theory Spec2Isabelle
  imports Complex_Main
begin

chapter \<open>The program\<close>

section \<open>JavaScript values\<close>

text \<open>
  The values that \<^verbatim>\<open>JSON.parse\<close> produces: null, booleans, numbers, strings, arrays and
  objects. A number is a rational (every finite double is one); the code only ever tests
  a number for truthiness. An object is its list of own properties, with distinct names,
  in insertion order. JavaScript's \<^verbatim>\<open>undefined\<close> is \<open>None\<close> of \<open>json option\<close>.
  A string is a list of 8-bit code units.
\<close>

datatype json =
    JNull
  | JBool bool
  | JNum rat
  | JStr string
  | JArr "json list"
  | JObj "(string \<times> json) list"

text \<open>
  What the code can throw: the failure of a request to the model (network, authentication,
  rate limit, a frame file that cannot be read), with its message; the \<^verbatim>\<open>SyntaxError\<close>
  of \<^verbatim>\<open>JSON.parse\<close> (the spec's MalformedOutput), with the text that did not parse; and
  the \<^verbatim>\<open>TypeError\<close> of a property read on \<^verbatim>\<open>null\<close>, with the name of the property.
\<close>

datatype error = TransportError string | MalformedOutput string | TypeError string

text \<open>Truthiness, as \<^verbatim>\<open>if (v)\<close> and \<^verbatim>\<open>||\<close> test it.\<close>

fun truthy :: "json \<Rightarrow> bool" where
  "truthy JNull = False"
| "truthy (JBool b) = b"
| "truthy (JNum r) = (r \<noteq> 0)"
| "truthy (JStr s) = (s \<noteq> [])"
| "truthy (JArr xs) = True"
| "truthy (JObj kvs) = True"

definition truthy_opt :: "json option \<Rightarrow> bool" where
  "truthy_opt v = (case v of None \<Rightarrow> False | Some x \<Rightarrow> truthy x)"

text \<open>\<^verbatim>\<open>a || b\<close>: the left operand when it is truthy, the right one otherwise.\<close>

definition js_or :: "json option \<Rightarrow> json option \<Rightarrow> json option" where
  "js_or a b = (if truthy_opt a then a else b)"

text \<open>
  A property read \<^verbatim>\<open>v.name\<close>, for the names the code reads (\<^verbatim>\<open>timeline\<close>,
  \<^verbatim>\<open>evaluations\<close>, \<^verbatim>\<open>assertionId\<close>, \<^verbatim>\<open>id\<close>): it throws on null, finds an own property
  of an object, and is undefined on a boolean, number, string or array, none of which
  has a property of these names.
\<close>

fun get_prop :: "json \<Rightarrow> string \<Rightarrow> error + json option" where
  "get_prop JNull name = Inl (TypeError name)"
| "get_prop (JObj kvs) name = Inr (map_of kvs name)"
| "get_prop v name = Inr None"

text \<open>\<^verbatim>\<open>Array.isArray(v) ? v : []\<close>\<close>

fun array_or_empty :: "json option \<Rightarrow> json list" where
  "array_or_empty (Some (JArr xs)) = xs"
| "array_or_empty v = []"

text \<open>
  \<^verbatim>\<open>JSON.parse\<close> and \<^verbatim>\<open>JSON.stringify\<close> are built-ins of the platform, not code of the
  repository: every function that calls them takes them as the parameter \<open>api\<close>.
  \<open>JSON_parse\<close> is \<open>None\<close> where \<^verbatim>\<open>JSON.parse\<close> throws. The wording of the messages
  of the errors that the engine throws is the engine's as well: \<open>syntax_error_message\<close>
  is the message of the \<^verbatim>\<open>SyntaxError\<close> that \<^verbatim>\<open>JSON.parse\<close> throws on a text, and
  \<open>null_read_message\<close> that of the \<^verbatim>\<open>TypeError\<close> thrown by the read of a property of
  \<^verbatim>\<open>null\<close>.
\<close>

record json_api =
  JSON_parse :: "string \<Rightarrow> json option"
  JSON_stringify :: "json \<Rightarrow> string"
  syntax_error_message :: "string \<Rightarrow> string"
  null_read_message :: "string \<Rightarrow> string"

section \<open>Result parser\<close>

text \<open>White space of \<^verbatim>\<open>String.prototype.trim\<close> and of the regular expression's
  \<^verbatim>\<open>\s\<close>, among the code units below 256: tab, line feed, vertical tab, form feed,
  carriage return, space and no-break space.\<close>

definition is_space :: "char \<Rightarrow> bool" where
  "is_space c = (c = CHR 0x09 \<or> c = CHR 0x0A \<or> c = CHR 0x0B \<or> c = CHR 0x0C
     \<or> c = CHR 0x0D \<or> c = CHR 0x20 \<or> c = CHR 0xA0)"

definition trim :: "string \<Rightarrow> string" where
  "trim s = rev (dropWhile is_space (rev (dropWhile is_space s)))"

text \<open>The text before the first triple backtick of a string, and the text after it.\<close>

fun split_fence :: "string \<Rightarrow> (string \<times> string) option" where
  "split_fence (a # b # c # rest) =
     (if a = CHR 0x60 \<and> b = CHR 0x60 \<and> c = CHR 0x60 then Some ([], rest)
      else map_option (\<lambda>(pre, post). (a # pre, post)) (split_fence (b # c # rest)))"
| "split_fence s = None"

text \<open>
  \<^verbatim>\<open>raw.match(/```(?:json)?\s*([\s\S]*?)```/)\<close>, its first group: the match starts at
  the leftmost triple backtick, skips \<^verbatim>\<open>json\<close> when it follows and then all white space,
  and the lazy group runs to the next triple backtick. When there is none the whole match
  fails: neither giving \<^verbatim>\<open>json\<close> or white space back to the group nor starting further
  right can find a closing fence that the first attempt did not.
\<close>

definition match_fence :: "string \<Rightarrow> string option" where
  "match_fence raw =
     (case split_fence raw of
        None \<Rightarrow> None
      | Some (pre, post) \<Rightarrow>
          (let post1 = (if take 4 post = ''json'' then drop 4 post else post) in
           map_option fst (split_fence (dropWhile is_space post1))))"

text \<open>The text that \<^verbatim>\<open>parseJsonFromResponse\<close> hands to \<^verbatim>\<open>JSON.parse\<close>.\<close>

definition strip_fence :: "string \<Rightarrow> string" where
  "strip_fence text =
     (let raw = trim text in
      case match_fence raw of Some body \<Rightarrow> trim body | None \<Rightarrow> raw)"

text \<open>\<^verbatim>\<open>parseJsonFromResponse(text)\<close>; \<^verbatim>\<open>text || ''\<close> is \<^verbatim>\<open>text\<close> on a string.\<close>

definition parseJsonFromResponse :: "json_api \<Rightarrow> string \<Rightarrow> error + json" where
  "parseJsonFromResponse api text =
     (case JSON_parse api (strip_fence text) of
        None \<Rightarrow> Inl (MalformedOutput (strip_fence text))
      | Some v \<Rightarrow> Inr v)"

section \<open>Model gateway\<close>

text \<open>
  A response of the Messages API: an ordered list of content blocks (a text block, or a
  tool invocation with its id, tool name and input) and the stop reason.
\<close>

datatype block = TextBlock string | ToolUseBlock string string "json option"

record response =
  content :: "block list"
  stop_reason :: string

text \<open>
  \<^verbatim>\<open>client.messages.create\<close> is the outside world. A run sees a sequence of replies, the
  \<open>i\<close>-th call of the run getting the \<open>i\<close>-th: either the call throws (\<open>Inl\<close>, with the
  error's message) or it returns a response. The request (prompts, sampled frames,
  message history) only travels to the model, so it is not part of the embedding; every
  statement quantifies over all reply sequences instead. Building the request of
  \<^verbatim>\<open>describeTimeline\<close>, of the batch and of the single strategy reads the sampled frame
  files from disk, right before the call; a read that throws leaves the function as a
  call that throws does, so \<open>Inl\<close> stands for either.
\<close>

type_synonym gateway = "nat \<Rightarrow> string + response"

text \<open>\<^verbatim>\<open>response.content?.find((c) => c.type === 'text')?.text || '{}'\<close>\<close>

fun first_text :: "block list \<Rightarrow> string option" where
  "first_text [] = None"
| "first_text (TextBlock t # bs) = Some t"
| "first_text (ToolUseBlock i n inp # bs) = first_text bs"

definition response_text :: "response \<Rightarrow> string" where
  "response_text r =
     (case first_text (content r) of
        None \<Rightarrow> ''{}''
      | Some t \<Rightarrow> if t = [] then ''{}'' else t)"

text \<open>
  \<^verbatim>\<open>const parsed = parseJsonFromResponse(text);\<close>
  \<^verbatim>\<open>const xs = Array.isArray(parsed.name) ? parsed.name : [];\<close>
  the two lines that follow every model call of the strategies.
\<close>

definition parse_array_field :: "json_api \<Rightarrow> string \<Rightarrow> string \<Rightarrow> error + json list" where
  "parse_array_field api name text =
     (case parseJsonFromResponse api text of
        Inl err \<Rightarrow> Inl err
      | Inr parsed \<Rightarrow>
          (case get_prop parsed name of
             Inl err \<Rightarrow> Inl err
           | Inr v \<Rightarrow> Inr (array_or_empty v)))"

text \<open>
  \<^verbatim>\<open>describeTimeline\<close> and \<^verbatim>\<open>evaluateAssertions\<close>: one model call each, made as call
  number \<open>c\<close> of the run; the second component is the number of calls made so far.
\<close>

definition describeTimeline :: "json_api \<Rightarrow> gateway \<Rightarrow> nat \<Rightarrow> (error + json list) \<times> nat" where
  "describeTimeline api gw c =
     (case gw c of
        Inl msg \<Rightarrow> (Inl (TransportError msg), Suc c)
      | Inr r \<Rightarrow> (parse_array_field api ''timeline'' (response_text r), Suc c))"

definition evaluateAssertions :: "json_api \<Rightarrow> gateway \<Rightarrow> nat \<Rightarrow> (error + json list) \<times> nat" where
  "evaluateAssertions api gw c =
     (case gw c of
        Inl msg \<Rightarrow> (Inl (TransportError msg), Suc c)
      | Inr r \<Rightarrow> (parse_array_field api ''evaluations'' (response_text r), Suc c))"

section \<open>The evaluations map\<close>

text \<open>
  A JavaScript \<^verbatim>\<open>Map\<close>, as its entries in insertion order. \<^verbatim>\<open>Map.prototype.set\<close>
  compares keys by SameValueZero: a primitive key equal to an existing one overwrites
  that entry in place; an array or object is compared by identity, and each one that
  \<^verbatim>\<open>JSON.parse\<close> builds is a new one, so such a key always adds an entry.
\<close>

type_synonym jsmap = "(json \<times> json) list"

fun is_primitive :: "json \<Rightarrow> bool" where
  "is_primitive (JArr xs) = False"
| "is_primitive (JObj kvs) = False"
| "is_primitive v = True"

fun map_set :: "jsmap \<Rightarrow> json \<Rightarrow> json \<Rightarrow> jsmap" where
  "map_set [] k v = [(k, v)]"
| "map_set ((k', v') # m) k v =
     (if is_primitive k \<and> k' = k then (k, v) # m else (k', v') # map_set m k v)"

definition map_keys :: "jsmap \<Rightarrow> json set" where
  "map_keys m = fst ` set m"

text \<open>\<^verbatim>\<open>e.assertionId || e.id\<close>: the first read throws when \<^verbatim>\<open>e\<close> is null.\<close>

definition eval_id :: "json \<Rightarrow> error + json option" where
  "eval_id e =
     (case get_prop e ''assertionId'' of
        Inl err \<Rightarrow> Inl err
      | Inr a \<Rightarrow> if truthy_opt a then Inr a else get_prop e ''id'')"

text \<open>
  \<^verbatim>\<open>for (const e of evaluations) { const id = e.assertionId || e.id; if (id) byId.set(id, e); }\<close>
  The loop mutates the map in place, so when an element throws, the entries set before
  it stay: the result is the map together with the error, if any.
\<close>

fun collect_by_id :: "jsmap \<Rightarrow> json list \<Rightarrow> jsmap \<times> error option" where
  "collect_by_id byId [] = (byId, None)"
| "collect_by_id byId (e # es) =
     (case eval_id e of
        Inl err \<Rightarrow> (byId, Some err)
      | Inr None \<Rightarrow> collect_by_id byId es
      | Inr (Some k) \<Rightarrow> collect_by_id (if truthy k then map_set byId k e else byId) es)"

section \<open>Evaluation strategies\<close>

record assertion =
  id_a :: string
  text_a :: string

record pipeline_result =
  timeline :: "json list"
  evaluations :: jsmap

definition runBatchPipeline :: "json_api \<Rightarrow> gateway \<Rightarrow> assertion list \<Rightarrow> error + pipeline_result" where
  "runBatchPipeline api gw assertions =
     (case gw 0 of
        Inl msg \<Rightarrow> Inl (TransportError msg)
      | Inr r \<Rightarrow>
          (case parse_array_field api ''evaluations'' (response_text r) of
             Inl err \<Rightarrow> Inl err
           | Inr evals \<Rightarrow>
               (case collect_by_id [] evals of
                  (byId, Some err) \<Rightarrow> Inl err
                | (byId, None) \<Rightarrow> Inr \<lparr>timeline = [], evaluations = byId\<rparr>)))"

text \<open>The synthetic evaluation of the single strategy.\<close>

definition fallback_evaluation :: "string \<Rightarrow> json" where
  "fallback_evaluation aid =
     JObj [(''assertionId'', JStr aid), (''verdict'', JStr ''uncertain''),
           (''confidence'', JNum 0), (''explanation'', JStr ''No evaluation returned.''),
           (''evidence'', JArr [])]"

text \<open>
  The body of the \<^verbatim>\<open>try\<close> of \<^verbatim>\<open>runSinglePipeline\<close> with its \<^verbatim>\<open>catch\<close>, then
  \<^verbatim>\<open>evaluations[0]\<close>, which is undefined on the empty array.
\<close>

definition single_first :: "json_api \<Rightarrow> response \<Rightarrow> json option" where
  "single_first api r =
     (case parse_array_field api ''evaluations'' (response_text r) of
        Inl err \<Rightarrow> None
      | Inr [] \<Rightarrow> None
      | Inr (e # es) \<Rightarrow> Some e)"

text \<open>
  \<^verbatim>\<open>if (e) { const id = e.assertionId || e.id || assertion.id; byId.set(id, e); }\<close>
  \<^verbatim>\<open>else { byId.set(assertion.id, fallback); }\<close>
  the key and the value that one turn of the loop sets.
\<close>

definition single_entry :: "assertion \<Rightarrow> json option \<Rightarrow> error + (json \<times> json)" where
  "single_entry a e0 =
     (case e0 of
        None \<Rightarrow> Inr (JStr (id_a a), fallback_evaluation (id_a a))
      | Some e \<Rightarrow>
          if truthy e then
            (case eval_id e of
               Inl err \<Rightarrow> Inl err
             | Inr i \<Rightarrow> Inr (if truthy_opt i then the i else JStr (id_a a), e))
          else Inr (JStr (id_a a), fallback_evaluation (id_a a)))"

text \<open>The \<^verbatim>\<open>for (const assertion of assertions)\<close> loop, one model call per assertion.\<close>

fun single_loop :: "json_api \<Rightarrow> gateway \<Rightarrow> nat \<Rightarrow> jsmap \<Rightarrow> assertion list \<Rightarrow> error + jsmap" where
  "single_loop api gw c byId [] = Inr byId"
| "single_loop api gw c byId (a # as) =
     (case gw c of
        Inl msg \<Rightarrow> Inl (TransportError msg)
      | Inr r \<Rightarrow>
          (case single_entry a (single_first api r) of
             Inl err \<Rightarrow> Inl err
           | Inr (k, v) \<Rightarrow> single_loop api gw (Suc c) (map_set byId k v) as))"

definition runSinglePipeline :: "json_api \<Rightarrow> gateway \<Rightarrow> assertion list \<Rightarrow> error + pipeline_result" where
  "runSinglePipeline api gw assertions =
     (case single_loop api gw 0 [] assertions of
        Inl err \<Rightarrow> Inl err
      | Inr byId \<Rightarrow> Inr \<lparr>timeline = [], evaluations = byId\<rparr>)"

definition runTwoPassPipeline :: "json_api \<Rightarrow> gateway \<Rightarrow> assertion list \<Rightarrow> error + pipeline_result" where
  "runTwoPassPipeline api gw assertions =
     (case describeTimeline api gw 0 of
        (Inl err, c) \<Rightarrow> Inl err
      | (Inr tline, c) \<Rightarrow>
          (case evaluateAssertions api gw c of
             (Inl err, c') \<Rightarrow> Inl err
           | (Inr evals, c') \<Rightarrow>
               (case collect_by_id [] evals of
                  (byId, Some err) \<Rightarrow> Inl err
                | (byId, None) \<Rightarrow> Inr \<lparr>timeline = tline, evaluations = byId\<rparr>)))"

text \<open>
  \<^verbatim>\<open>runPipeline\<close>: \<^verbatim>\<open>opts.strategy\<close> is any value or undefined;
  \<^verbatim>\<open>===\<close> against a string literal holds for that string only.
\<close>

definition runPipeline :: "json_api \<Rightarrow> gateway \<Rightarrow> json option \<Rightarrow> assertion list \<Rightarrow> error + pipeline_result" where
  "runPipeline api gw strategy0 assertions =
     (let strategy = js_or strategy0 (Some (JStr ''two-pass'')) in
      if strategy = Some (JStr ''single'') then runSinglePipeline api gw assertions
      else if strategy = Some (JStr ''batch'') then runBatchPipeline api gw assertions
      else runTwoPassPipeline api gw assertions)"

section \<open>Tool executor\<close>

record envelope =
  content_e :: string
  isError :: bool

text \<open>
  \<^verbatim>\<open>err.message || String(err)\<close> in the \<^verbatim>\<open>catch\<close> of \<^verbatim>\<open>executeTool\<close>: the message of
  the error, which the engine words for its own errors, and when the message is empty
  the error as a string, which then is the error's name.
\<close>

fun error_message :: "json_api \<Rightarrow> error \<Rightarrow> string" where
  "error_message api (TransportError msg) = (if msg = [] then ''Error'' else msg)"
| "error_message api (MalformedOutput t) =
     (if syntax_error_message api t = [] then ''SyntaxError'' else syntax_error_message api t)"
| "error_message api (TypeError name) =
     (if null_read_message api name = [] then ''TypeError'' else null_read_message api name)"

text \<open>The body of the \<^verbatim>\<open>try\<close> block of \<^verbatim>\<open>executeTool\<close>.\<close>

definition executeTool_try ::
  "json_api \<Rightarrow> gateway \<Rightarrow> string \<Rightarrow> json \<Rightarrow> nat \<Rightarrow> (error + envelope) \<times> nat" where
  "executeTool_try api gw toolName toolInput c =
     (if toolName = ''describe_timeline'' then
        (case describeTimeline api gw c of
           (Inl err, c') \<Rightarrow> (Inl err, c')
         | (Inr tline, c') \<Rightarrow>
             (Inr \<lparr>content_e = JSON_stringify api (JObj [(''timeline'', JArr tline)]),
                   isError = False\<rparr>, c'))
      else if toolName = ''evaluate_assertions'' then
        (case get_prop toolInput ''timeline'' of
           Inl err \<Rightarrow> (Inl err, c)
         | Inr tline \<Rightarrow>
             (case evaluateAssertions api gw c of
                (Inl err, c') \<Rightarrow> (Inl err, c')
              | (Inr evals, c') \<Rightarrow>
                  (Inr \<lparr>content_e = JSON_stringify api (JObj [(''evaluations'', JArr evals)]),
                        isError = False\<rparr>, c')))
      else
        (Inr \<lparr>content_e =
                JSON_stringify api (JObj [(''error'', JStr (''Unknown tool: '' @ toolName))]),
              isError = True\<rparr>, c))"

text \<open>\<^verbatim>\<open>executeTool\<close>: the \<^verbatim>\<open>try\<close> block and its \<^verbatim>\<open>catch\<close>.\<close>

definition executeTool ::
  "json_api \<Rightarrow> gateway \<Rightarrow> string \<Rightarrow> json \<Rightarrow> nat \<Rightarrow> (error + envelope) \<times> nat" where
  "executeTool api gw toolName toolInput c =
     (case executeTool_try api gw toolName toolInput c of
        (Inl err, c') \<Rightarrow>
          (Inr \<lparr>content_e = JSON_stringify api (JObj [(''error'', JStr (error_message api err))]),
                isError = True\<rparr>, c')
      | (Inr env, c') \<Rightarrow> (Inr env, c'))"

section \<open>Agentic orchestrator\<close>

datatype tool_result = ToolResult string string bool

datatype message =
    UserPrompt
  | AssistantMessage "block list"
  | ToolResultsMessage "tool_result list"

record agent_state =
  calls :: nat
  messages :: "message list"
  harvested :: pipeline_result

definition MAX_AGENT_TURNS :: nat where
  "MAX_AGENT_TURNS = 10"

text \<open>
  The two \<^verbatim>\<open>if\<close> statements after each tool call, each with its \<^verbatim>\<open>try\<close> and empty
  \<^verbatim>\<open>catch\<close>: a throw inside leaves what was set before it.
\<close>

definition harvest :: "json_api \<Rightarrow> string \<Rightarrow> envelope \<Rightarrow> pipeline_result \<Rightarrow> pipeline_result" where
  "harvest api toolName result acc =
     (let acc1 =
        (if toolName = ''describe_timeline'' \<and> \<not> isError result then
           (case JSON_parse api (content_e result) of
              None \<Rightarrow> acc
            | Some parsed \<Rightarrow>
                (case get_prop parsed ''timeline'' of
                   Inr (Some (JArr tline)) \<Rightarrow> acc\<lparr>timeline := tline\<rparr>
                 | _ \<Rightarrow> acc))
         else acc)
      in
        if toolName = ''evaluate_assertions'' \<and> \<not> isError result then
          (case JSON_parse api (content_e result) of
             None \<Rightarrow> acc1
           | Some parsed \<Rightarrow>
               (case get_prop parsed ''evaluations'' of
                  Inl err \<Rightarrow> acc1
                | Inr v \<Rightarrow>
                    acc1\<lparr>evaluations :=
                      fst (collect_by_id (evaluations acc1) (array_or_empty v))\<rparr>))
        else acc1)"

text \<open>
  The loop over the \<^verbatim>\<open>tool_use\<close> blocks of one response; \<^verbatim>\<open>toolInput || {}\<close> is the
  input handed to the executor.
\<close>

fun run_tools ::
  "json_api \<Rightarrow> gateway \<Rightarrow> block list \<Rightarrow> nat \<Rightarrow> tool_result list \<Rightarrow> pipeline_result
    \<Rightarrow> error + (nat \<times> tool_result list \<times> pipeline_result)" where
  "run_tools api gw [] c toolResults acc = Inr (c, toolResults, acc)"
| "run_tools api gw (TextBlock t # bs) c toolResults acc = run_tools api gw bs c toolResults acc"
| "run_tools api gw (ToolUseBlock toolUseId toolName toolInput # bs) c toolResults acc =
     (case executeTool api gw toolName
             (if truthy_opt toolInput then the toolInput else JObj []) c of
        (Inl err, c') \<Rightarrow> Inl err
      | (Inr result, c') \<Rightarrow>
          run_tools api gw bs c'
            (toolResults @ [ToolResult toolUseId (content_e result) (isError result)])
            (harvest api toolName result acc))"

text \<open>\<^verbatim>\<open>for (let turn = 0; turn < MAX_AGENT_TURNS; turn++) { ... }\<close>, from turn \<open>turn\<close> on.\<close>

function agentLoop :: "json_api \<Rightarrow> gateway \<Rightarrow> nat \<Rightarrow> agent_state \<Rightarrow> error + agent_state" where
  "agentLoop api gw turn st =
     (if turn < MAX_AGENT_TURNS then
        (case gw (calls st) of
           Inl msg \<Rightarrow> Inl (TransportError msg)
         | Inr r \<Rightarrow>
             (let st1 = st\<lparr>calls := Suc (calls st),
                           messages := messages st @ [AssistantMessage (content r)]\<rparr> in
              if stop_reason r \<noteq> ''tool_use'' then Inr st1
              else
                (case run_tools api gw (content r) (calls st1) [] (harvested st1) of
                   Inl err \<Rightarrow> Inl err
                 | Inr (c, toolResults, acc) \<Rightarrow>
                     agentLoop api gw (Suc turn)
                       (st1\<lparr>calls := c,
                            messages := messages st1 @ [ToolResultsMessage toolResults],
                            harvested := acc\<rparr>))))
      else Inr st)"
  by pat_completeness auto
termination
  by (relation "measure (\<lambda>(api, gw, turn, st). MAX_AGENT_TURNS - turn)") auto

definition initial_state :: agent_state where
  "initial_state =
     \<lparr>calls = 0, messages = [UserPrompt], harvested = \<lparr>timeline = [], evaluations = []\<rparr>\<rparr>"

definition runAgenticPipeline :: "json_api \<Rightarrow> gateway \<Rightarrow> assertion list \<Rightarrow> error + pipeline_result" where
  "runAgenticPipeline api gw assertions =
     (case agentLoop api gw 0 initial_state of
        Inl err \<Rightarrow> Inl err
      | Inr st \<Rightarrow> Inr (harvested st))"

section \<open>Frame sampler\<close>

text \<open>
  \<^verbatim>\<open>step = (frames.length - 1) / (maxFrames - 1)\<close> and \<^verbatim>\<open>i * step\<close> are operations on
  doubles: each returns the exact result rounded to a double. The rounding is the
  parameter \<open>fl\<close>: \<open>to_double\<close> below is that of the platform, the identity is exact
  arithmetic. \<^verbatim>\<open>Math.round\<close> rounds halves up, and \<^verbatim>\<open>Math.min\<close> and the subtractions
  are exact on these integers.
\<close>

definition js_round :: "rat \<Rightarrow> int" where
  "js_round x = \<lfloor>x + 1 / 2\<rfloor>"

definition sample_index :: "(rat \<Rightarrow> rat) \<Rightarrow> nat \<Rightarrow> nat \<Rightarrow> nat \<Rightarrow> int" where
  "sample_index fl n maxFrames i =
     (let step = fl (of_nat (n - 1) / of_nat (maxFrames - 1)) in
      min (js_round (fl (of_nat i * step))) (int n - 1))"

text \<open>The array \<^verbatim>\<open>indices\<close> after the loop.\<close>

definition sample_indices :: "(rat \<Rightarrow> rat) \<Rightarrow> nat \<Rightarrow> nat \<Rightarrow> int list" where
  "sample_indices fl n maxFrames = map (sample_index fl n maxFrames) [0..<maxFrames]"

text \<open>
  A JavaScript array is the list of its elements, \<open>None\<close> for an element that is
  undefined. \<^verbatim>\<open>frames[i]\<close> is undefined outside the array.
\<close>

definition frame_at :: "'a option list \<Rightarrow> int \<Rightarrow> 'a option" where
  "frame_at frames i = (if 0 \<le> i \<and> i < int (length frames) then frames ! nat i else None)"

text \<open>
  \<^verbatim>\<open>sampleFramesEvenly(frames, maxFrames)\<close> for a cap that is a natural number. With a cap
  of 1 and more than one frame the step is infinite, \<^verbatim>\<open>0 * step\<close> is NaN and the one
  element returned is \<^verbatim>\<open>frames[NaN]\<close>, undefined; with a cap of 0 the loop does not run.
\<close>

definition sampleFramesEvenly :: "(rat \<Rightarrow> rat) \<Rightarrow> 'a option list \<Rightarrow> nat \<Rightarrow> 'a option list" where
  "sampleFramesEvenly fl frames maxFrames =
     (if length frames \<le> maxFrames then frames
      else if maxFrames = 1 then [None]
      else map (frame_at frames) (sample_indices fl (length frames) maxFrames))"

definition MAX_FRAMES_PER_TIMELINE_REQUEST :: nat where
  "MAX_FRAMES_PER_TIMELINE_REQUEST = 20"

text \<open>
  The rounding of the platform: to the nearest double of IEEE 754, a tie going to the
  even significand. A double has a significand of 53 bits, so a number between \<open>2 ^ e\<close>
  and \<open>2 ^ (e + 1)\<close> is rounded to a multiple of \<open>2 ^ (e - 52)\<close>. The exponent is taken to
  be in range, as it is for indices of arrays: there is no overflow and no underflow.
\<close>

function bit_length :: "int \<Rightarrow> nat" where
  "bit_length n = (if n \<le> 0 then 0 else Suc (bit_length (n div 2)))"
  by pat_completeness auto
termination
  by (relation "measure nat") auto

definition pow2 :: "int \<Rightarrow> rat" where
  "pow2 e = (if 0 \<le> e then 2 ^ nat e else 1 / 2 ^ nat (- e))"

text \<open>The exponent \<open>e\<close> with \<open>2 ^ e \<le> x < 2 ^ (e + 1)\<close>, for a positive \<open>x\<close>.\<close>

definition binary_exponent :: "rat \<Rightarrow> int" where
  "binary_exponent x =
     (let (p, q) = quotient_of x;
          e = int (bit_length p) - int (bit_length q)
      in if pow2 e \<le> x then e else e - 1)"

definition round_even :: "rat \<Rightarrow> int" where
  "round_even z =
     (let f = \<lfloor>z\<rfloor>; d = z - of_int f
      in if d < 1 / 2 then f else if 1 / 2 < d then f + 1 else if even f then f else f + 1)"

definition to_double :: "rat \<Rightarrow> rat" where
  "to_double x =
     (if x = 0 then 0
      else let s = pow2 (binary_exponent \<bar>x\<bar> - 52) in s * of_int (round_even (x / s)))"

section \<open>A reference implementation of the JSON built-ins\<close>

text \<open>
  The statements below hold for every \<open>api\<close>. To run the code on a concrete response
  text, \<open>std_json\<close> implements the two built-ins on the JSON grammar: values, white
  space, string escapes (code units below 256), and numbers with fraction and exponent,
  read exactly. Its error messages are worded after those of V8.
\<close>

definition is_digit :: "char \<Rightarrow> bool" where
  "is_digit c = (48 \<le> (of_char c :: nat) \<and> (of_char c :: nat) \<le> 57)"

definition digit_val :: "char \<Rightarrow> nat" where
  "digit_val c = of_char c - 48"

definition nat_of_digits :: "string \<Rightarrow> nat" where
  "nat_of_digits ds = foldl (\<lambda>n c. 10 * n + digit_val c) 0 ds"

definition is_json_ws :: "char \<Rightarrow> bool" where
  "is_json_ws c = (c = CHR 0x09 \<or> c = CHR 0x0A \<or> c = CHR 0x0D \<or> c = CHR 0x20)"

definition skip_ws :: "string \<Rightarrow> string" where
  "skip_ws s = dropWhile is_json_ws s"

definition starts_with :: "char \<Rightarrow> string \<Rightarrow> bool" where
  "starts_with c s = (case s of [] \<Rightarrow> False | x # xs \<Rightarrow> x = c)"

definition pow10 :: "int \<Rightarrow> rat" where
  "pow10 e = (if 0 \<le> e then 10 ^ nat e else 1 / 10 ^ nat (- e))"

definition parse_number :: "string \<Rightarrow> (rat \<times> string) option" where
  "parse_number s =
     (let neg = starts_with CHR ''-'' s;
          s1 = (if neg then tl s else s);
          ip = takeWhile is_digit s1;
          s2 = dropWhile is_digit s1;
          has_frac = starts_with CHR ''.'' s2;
          fp = (if has_frac then takeWhile is_digit (tl s2) else []);
          s3 = (if has_frac then dropWhile is_digit (tl s2) else s2);
          has_exp = (starts_with CHR ''e'' s3 \<or> starts_with CHR ''E'' s3);
          s4 = (if has_exp then tl s3 else s3);
          eneg = starts_with CHR ''-'' s4;
          s5 = (if has_exp \<and> (eneg \<or> starts_with CHR ''+'' s4) then tl s4 else s4);
          ep = (if has_exp then takeWhile is_digit s5 else []);
          s6 = (if has_exp then dropWhile is_digit s5 else s5);
          e = (if eneg then - int (nat_of_digits ep) else int (nat_of_digits ep))
      in
        if ip = [] \<or> (length ip > 1 \<and> starts_with CHR ''0'' ip) \<or> (has_frac \<and> fp = [])
           \<or> (has_exp \<and> ep = [])
        then None
        else Some ((if neg then - 1 else 1) * of_nat (nat_of_digits (ip @ fp))
                     * pow10 (e - int (length fp)), s6))"

definition hex_val :: "char \<Rightarrow> nat option" where
  "hex_val c =
     (let n = (of_char c :: nat) in
      if 48 \<le> n \<and> n \<le> 57 then Some (n - 48)
      else if 65 \<le> n \<and> n \<le> 70 then Some (n - 55)
      else if 97 \<le> n \<and> n \<le> 102 then Some (n - 87)
      else None)"

definition hex4 :: "string \<Rightarrow> char option" where
  "hex4 s =
     (case map hex_val s of
        [Some a, Some b, Some c, Some d] \<Rightarrow>
          if a = 0 \<and> b = 0 then Some (char_of (16 * c + d)) else None
      | _ \<Rightarrow> None)"

definition unescape :: "char \<Rightarrow> char option" where
  "unescape e =
     (if e = CHR 0x22 \<or> e = CHR 0x5C \<or> e = CHR ''/'' then Some e
      else if e = CHR ''b'' then Some (CHR 0x08)
      else if e = CHR ''f'' then Some (CHR 0x0C)
      else if e = CHR ''n'' then Some (CHR 0x0A)
      else if e = CHR ''r'' then Some (CHR 0x0D)
      else if e = CHR ''t'' then Some (CHR 0x09)
      else None)"

text \<open>The characters of a string literal after its opening quote.\<close>

fun parse_string :: "string \<Rightarrow> string \<Rightarrow> (string \<times> string) option" where
  "parse_string [] acc = None"
| "parse_string (c # r) acc =
     (if c = CHR 0x22 then Some (acc, r)
      else if c = CHR 0x5C then
        (case r of
           [] \<Rightarrow> None
         | e # r' \<Rightarrow>
             if e = CHR ''u'' then
               (case hex4 (take 4 r') of
                  None \<Rightarrow> None
                | Some ch \<Rightarrow> parse_string (drop 4 r') (acc @ [ch]))
             else
               (case unescape e of
                  None \<Rightarrow> None
                | Some ch \<Rightarrow> parse_string r' (acc @ [ch])))
      else if (of_char c :: nat) < 32 then None
      else parse_string r (acc @ [c]))"

text \<open>An object keeps one property per name: a repeated name overwrites in place.\<close>

fun obj_put :: "(string \<times> json) list \<Rightarrow> string \<Rightarrow> json \<Rightarrow> (string \<times> json) list" where
  "obj_put [] k v = [(k, v)]"
| "obj_put ((k', v') # kvs) k v = (if k' = k then (k, v) # kvs else (k', v') # obj_put kvs k v)"

text \<open>Recursive descent; the first argument bounds the depth of the calls.\<close>

fun parse_value :: "nat \<Rightarrow> string \<Rightarrow> (json \<times> string) option"
  and parse_elements :: "nat \<Rightarrow> string \<Rightarrow> json list \<Rightarrow> (json list \<times> string) option"
  and parse_members ::
    "nat \<Rightarrow> string \<Rightarrow> (string \<times> json) list \<Rightarrow> ((string \<times> json) list \<times> string) option"
where
  "parse_value 0 s = None"
| "parse_value (Suc n) s =
     (case s of
        [] \<Rightarrow> None
      | c # r \<Rightarrow>
          if c = CHR ''n'' then (if take 3 r = ''ull'' then Some (JNull, drop 3 r) else None)
          else if c = CHR ''t'' then
            (if take 3 r = ''rue'' then Some (JBool True, drop 3 r) else None)
          else if c = CHR ''f'' then
            (if take 4 r = ''alse'' then Some (JBool False, drop 4 r) else None)
          else if c = CHR 0x22 then
            map_option (\<lambda>(str, r'). (JStr str, r')) (parse_string r [])
          else if c = CHR ''['' then
            (if starts_with CHR '']'' (skip_ws r) then Some (JArr [], tl (skip_ws r))
             else map_option (\<lambda>(xs, r'). (JArr xs, r')) (parse_elements n (skip_ws r) []))
          else if c = CHR ''{'' then
            (if starts_with CHR ''}'' (skip_ws r) then Some (JObj [], tl (skip_ws r))
             else map_option (\<lambda>(kvs, r'). (JObj kvs, r')) (parse_members n (skip_ws r) []))
          else map_option (\<lambda>(q, r'). (JNum q, r')) (parse_number s))"
| "parse_elements 0 s acc = None"
| "parse_elements (Suc n) s acc =
     (case parse_value n s of
        None \<Rightarrow> None
      | Some (v, r) \<Rightarrow>
          if starts_with CHR '','' (skip_ws r) then
            parse_elements n (skip_ws (tl (skip_ws r))) (acc @ [v])
          else if starts_with CHR '']'' (skip_ws r) then Some (acc @ [v], tl (skip_ws r))
          else None)"
| "parse_members 0 s acc = None"
| "parse_members (Suc n) s acc =
     (if starts_with CHR 0x22 s then
        (case parse_string (tl s) [] of
           None \<Rightarrow> None
         | Some (k, r) \<Rightarrow>
             if starts_with CHR '':'' (skip_ws r) then
               (case parse_value n (skip_ws (tl (skip_ws r))) of
                  None \<Rightarrow> None
                | Some (v, r') \<Rightarrow>
                    if starts_with CHR '','' (skip_ws r') then
                      parse_members n (skip_ws (tl (skip_ws r'))) (obj_put acc k v)
                    else if starts_with CHR ''}'' (skip_ws r') then
                      Some (obj_put acc k v, tl (skip_ws r'))
                    else None)
             else None)
      else None)"

definition std_parse :: "string \<Rightarrow> json option" where
  "std_parse s =
     (case parse_value (2 * length s + 2) (skip_ws s) of
        None \<Rightarrow> None
      | Some (v, r) \<Rightarrow> if skip_ws r = [] then Some v else None)"

definition hex_digit :: "nat \<Rightarrow> char" where
  "hex_digit n = ''0123456789abcdef'' ! n"

definition escape_char :: "char \<Rightarrow> string" where
  "escape_char c =
     (if c = CHR 0x22 then [CHR 0x5C, CHR 0x22]
      else if c = CHR 0x5C then [CHR 0x5C, CHR 0x5C]
      else if c = CHR 0x08 then [CHR 0x5C, CHR ''b'']
      else if c = CHR 0x0C then [CHR 0x5C, CHR ''f'']
      else if c = CHR 0x0A then [CHR 0x5C, CHR ''n'']
      else if c = CHR 0x0D then [CHR 0x5C, CHR ''r'']
      else if c = CHR 0x09 then [CHR 0x5C, CHR ''t'']
      else if (of_char c :: nat) < 32 then
        [CHR 0x5C, CHR ''u'', CHR ''0'', CHR ''0'',
         hex_digit ((of_char c :: nat) div 16), hex_digit ((of_char c :: nat) mod 16)]
      else [c])"

definition quote_string :: "string \<Rightarrow> string" where
  "quote_string s = [CHR 0x22] @ concat (map escape_char s) @ [CHR 0x22]"

fun digits_of :: "nat \<Rightarrow> string" where
  "digits_of n =
     (if n < 10 then [hex_digit n] else digits_of (n div 10) @ [hex_digit (n mod 10)])"

text \<open>The digits after the decimal point of a proper fraction \<open>p / q\<close>, at most \<open>k\<close> of them.\<close>

fun fraction_digits :: "nat \<Rightarrow> nat \<Rightarrow> nat \<Rightarrow> string" where
  "fraction_digits 0 p q = []"
| "fraction_digits (Suc k) p q =
     (if p = 0 then [] else hex_digit (10 * p div q) # fraction_digits k (10 * p mod q) q)"

definition number_text :: "rat \<Rightarrow> string" where
  "number_text r =
     (let (a, b) = quotient_of r;
          m = nat \<bar>a\<bar>;
          q = nat b;
          frac = fraction_digits 17 (m mod q) q
      in (if a < 0 then ''-'' else []) @ digits_of (m div q)
           @ (if frac = [] then [] else ''.'' @ frac))"

fun join_with :: "string \<Rightarrow> string list \<Rightarrow> string" where
  "join_with sep [] = []"
| "join_with sep [x] = x"
| "join_with sep (x # y # ys) = x @ sep @ join_with sep (y # ys)"

fun std_stringify :: "json \<Rightarrow> string" where
  "std_stringify JNull = ''null''"
| "std_stringify (JBool b) = (if b then ''true'' else ''false'')"
| "std_stringify (JNum r) = number_text r"
| "std_stringify (JStr s) = quote_string s"
| "std_stringify (JArr xs) = ''['' @ join_with '','' (map std_stringify xs) @ '']''"
| "std_stringify (JObj kvs) =
     ''{'' @ join_with '','' (map (\<lambda>kv. quote_string (fst kv) @ '':'' @ std_stringify (snd kv)) kvs)
       @ ''}''"

definition std_syntax_error :: "string \<Rightarrow> string" where
  "std_syntax_error t = ''Unexpected token in JSON: '' @ t"

definition std_null_read :: "string \<Rightarrow> string" where
  "std_null_read name =
     ''Cannot read properties of null (reading '' @ [CHR 0x27] @ name @ [CHR 0x27] @ '')''"

definition std_json :: json_api where
  "std_json =
     \<lparr>JSON_parse = std_parse, JSON_stringify = std_stringify,
      syntax_error_message = std_syntax_error, null_read_message = std_null_read\<rparr>"

text \<open>
  Values with integers for numbers and one property per name in an object: the reference
  parser reads their serialization back.
\<close>

fun plain_json :: "json \<Rightarrow> bool" where
  "plain_json (JNum r) = (snd (quotient_of r) = 1)"
| "plain_json (JArr xs) = list_all plain_json xs"
| "plain_json (JObj kvs) = (distinct (map fst kvs) \<and> list_all (\<lambda>kv. plain_json (snd kv)) kvs)"
| "plain_json v = True"

text \<open>What may follow a value inside a serialization.\<close>

definition delimited :: "string \<Rightarrow> bool" where
  "delimited rest =
     (case rest of [] \<Rightarrow> True | c # cs \<Rightarrow> c = CHR '','' \<or> c = CHR '']'' \<or> c = CHR ''}'')"

text \<open>The depth of calls that the parser needs for the serialization of a value.\<close>

fun parse_depth :: "json \<Rightarrow> nat" where
  "parse_depth (JArr xs) = Suc (sum_list (map (\<lambda>x. Suc (parse_depth x)) xs))"
| "parse_depth (JObj kvs) = Suc (sum_list (map (\<lambda>kv. Suc (parse_depth (snd kv))) kvs))"
| "parse_depth v = 1"

text \<open>The first character of a serialization: not white space, not a closing bracket.\<close>

definition value_start :: "char \<Rightarrow> bool" where
  "value_start c = (\<not> is_json_ws c \<and> \<not> is_space c \<and> c \<noteq> CHR '']'' \<and> c \<noteq> CHR ''}'')"

text \<open>The serialization of one property of an object.\<close>

definition member_text :: "string \<times> json \<Rightarrow> string" where
  "member_text kv = quote_string (fst kv) @ '':'' @ std_stringify (snd kv)"

section \<open>Concrete inputs\<close>

text \<open>A gateway that answers the calls of a run with the given responses, in order, and
  fails afterwards.\<close>

definition replies :: "response list \<Rightarrow> gateway" where
  "replies rs i = (if i < length rs then Inr (rs ! i) else Inl ''no reply'')"

definition text_response :: "string \<Rightarrow> response" where
  "text_response t = \<lparr>content = [TextBlock t], stop_reason = ''end_turn''\<rparr>"

definition tool_response :: "block list \<Rightarrow> response" where
  "tool_response bs = \<lparr>content = bs, stop_reason = ''tool_use''\<rparr>"

definition login_assertion :: assertion where
  "login_assertion = \<lparr>id_a = ''a1'', text_a = ''Login button is visible''\<rparr>"

definition logout_assertion :: assertion where
  "logout_assertion = \<lparr>id_a = ''a2'', text_a = ''Logout button is hidden''\<rparr>"

text \<open>The two-pass scenario of the specification: the timeline, then the evaluation of
  the one assertion.\<close>

definition two_pass_gateway :: gateway where
  \<open>two_pass_gateway = replies
     [text_response ''{"timeline":[{"timestampSeconds":0,"description":"Login screen shown"}]}'',
      text_response ''{"evaluations":[{"assertionId":"a1","verdict":"pass","confidence":0.9}]}'']\<close>

definition foreign_evaluation :: json where
  "foreign_evaluation = JObj [(''assertionId'', JStr ''zzz''), (''verdict'', JStr ''pass'')]"

text \<open>A model that answers with an assertion id that is not among the input.\<close>

definition foreign_id_gateway :: gateway where
  \<open>foreign_id_gateway = replies
     [text_response ''{"evaluations":[{"assertionId":"zzz","verdict":"pass"}]}'']\<close>

text \<open>A model that answers with a number for an assertion id.\<close>

definition numeric_evaluation :: json where
  "numeric_evaluation = JObj [(''assertionId'', JNum 7), (''verdict'', JStr ''pass'')]"

definition numeric_id_gateway :: gateway where
  \<open>numeric_id_gateway = replies
     [text_response ''{"evaluations":[{"assertionId":7,"verdict":"pass"}]}'']\<close>

text \<open>A model that answers in prose.\<close>

definition prose_reply :: response where
  "prose_reply = text_response ''The video shows a login screen.''"

definition prose_gateway :: gateway where
  "prose_gateway = replies [prose_reply]"

text \<open>Two calls of the single strategy: prose for the first assertion, then an evaluation
  that carries the id of the first assertion for the second.\<close>

definition stolen_id_gateway :: gateway where
  \<open>stolen_id_gateway = replies
     [text_response ''I could not see the login button.'',
      text_response ''{"evaluations":[{"assertionId":"a1","verdict":"fail"}]}'']\<close>

text \<open>Two calls of the single strategy: an evaluation of the first assertion, prose for
  the second.\<close>

definition login_pass_reply :: response where
  \<open>login_pass_reply = text_response ''{"evaluations":[{"assertionId":"a1","verdict":"pass"}]}''\<close>

definition logout_prose_reply :: response where
  "logout_prose_reply = text_response ''I could not see the logout button.''"

definition mixed_gateway :: gateway where
  "mixed_gateway = replies [login_pass_reply, logout_prose_reply]"

text \<open>
  An agentic run of three turns. Turn 0 asks for the timeline; turn 1 asks for it again
  and for the evaluations, which come fenced, with two evaluations of \<^verbatim>\<open>a1\<close> and one of
  an id that is not an input; turn 2 ends the run. The replies at positions 1, 3 and 4
  answer the calls that the tools make.
\<close>

definition agent_gateway :: gateway where
  \<open>agent_gateway = replies
     [tool_response [TextBlock ''Let me look at the video.'',
        ToolUseBlock ''t1'' ''describe_timeline'' (Some (JObj []))],
      text_response ''{"timeline":[{"timestampSeconds":0,"description":"Splash screen"}]}'',
      tool_response [ToolUseBlock ''t2'' ''describe_timeline'' None,
        ToolUseBlock ''t3'' ''evaluate_assertions''
          (Some (JObj [(''timeline'', JArr [JObj [(''timestampSeconds'', JNum 0),
             (''description'', JStr ''Login screen shown'')]])]))],
      text_response ''{"timeline":[{"timestampSeconds":0,"description":"Login screen shown"}]}'',
      text_response (''```json'' @ [CHR 0x0A]
        @ ''{"evaluations":[{"assertionId":"a1","verdict":"fail"},{"assertionId":"zzz","verdict":"pass"},{"assertionId":"a1","verdict":"pass"}]}''
        @ [CHR 0x0A] @ ''```''),
      text_response ''All assertions evaluated.'']\<close>

definition agent_result :: pipeline_result where
  "agent_result =
     \<lparr>timeline =
        [JObj [(''timestampSeconds'', JNum 0), (''description'', JStr ''Login screen shown'')]],
      evaluations =
        [(JStr ''a1'', JObj [(''assertionId'', JStr ''a1''), (''verdict'', JStr ''pass'')]),
         (JStr ''zzz'', foreign_evaluation)]\<rparr>"

text \<open>
  An agentic run of three turns in which the model evaluates the input assertion only:
  the timeline, then two evaluations of \<^verbatim>\<open>a1\<close>, then the end.
\<close>

definition tidy_replies :: "response list" where
  \<open>tidy_replies =
     [tool_response [ToolUseBlock ''t1'' ''describe_timeline'' None],
      text_response ''{"timeline":[{"timestampSeconds":0,"description":"Login screen shown"}]}'',
      tool_response [ToolUseBlock ''t2'' ''evaluate_assertions''
          (Some (JObj [(''timeline'', JArr [JObj [(''timestampSeconds'', JNum 0),
             (''description'', JStr ''Login screen shown'')]])]))],
      text_response ''{"evaluations":[{"assertionId":"a1","verdict":"fail"},{"assertionId":"a1","verdict":"pass"}]}'',
      text_response ''All assertions evaluated.'']\<close>

definition tidy_gateway :: gateway where
  "tidy_gateway = replies tidy_replies"

text \<open>A model that asks for the timeline at every turn; the odd calls are those that the
  tool makes.\<close>

definition busy_gateway :: gateway where
  \<open>busy_gateway i =
     (if even i then Inr (tool_response [ToolUseBlock ''t'' ''describe_timeline'' None])
      else Inr (text_response ''{"timeline":[{"timestampSeconds":0,"description":"Login screen shown"}]}''))\<close>


definition login_entry :: json where
  "login_entry = JObj [(''timestampSeconds'', JNum 0), (''description'', JStr ''Login screen shown'')]"


definition a1_pass :: json where
  "a1_pass = JObj [(''assertionId'', JStr ''a1''), (''verdict'', JStr ''pass'')]"






text \<open>A text wrapped in a markdown fence, tagged \<^verbatim>\<open>json\<close> or not, on lines of its own.\<close>

definition fence_wrap :: "bool \<Rightarrow> string \<Rightarrow> string" where
  "fence_wrap tagged s =
     ''```'' @ (if tagged then ''json'' else []) @ [CHR 0x0A] @ s @ [CHR 0x0A] @ ''```''"

text \<open>An object with a string that holds triple backticks.\<close>

definition backtick_object :: json where
  "backtick_object = JObj [(''a'', JStr ''```1```'')]"

text \<open>An array of 35 frames, each frame being its index.\<close>

definition frames35 :: "nat option list" where
  "frames35 = map Some [0..<35]"

section \<open>Predicates of the statements\<close>


text \<open>
  Every call of the single strategy is answered, and the entry it sets is stored under
  the id of the assertion the call was about: the first evaluation of the response, if
  there is one, carries that id or no truthy id at all.
\<close>

definition echoes :: "json_api \<Rightarrow> gateway \<Rightarrow> assertion list \<Rightarrow> bool" where
  "echoes api gw as =
     (\<forall>i < length as. \<exists>r v. gw i = Inr r
        \<and> single_entry (as ! i) (single_first api r) = Inr (JStr (id_a (as ! i)), v))"

text \<open>The number of model turns in a message history.\<close>

definition assistant_turns :: "message list \<Rightarrow> nat" where
  "assistant_turns ms =
     length (filter (\<lambda>m. case m of AssistantMessage bs \<Rightarrow> True | _ \<Rightarrow> False) ms)"

text \<open>
  The harvest of a conversation: the tool results of every turn, each with the name of
  the invocation it answers, harvested one after the other in the order of the history.
\<close>

fun replay_tools ::
  "json_api \<Rightarrow> block list \<Rightarrow> tool_result list \<Rightarrow> pipeline_result \<Rightarrow> pipeline_result" where
  "replay_tools api (TextBlock t # bs) trs acc = replay_tools api bs trs acc"
| "replay_tools api (ToolUseBlock i n inp # bs) (ToolResult i' c e # trs) acc =
     replay_tools api bs trs (harvest api n \<lparr>content_e = c, isError = e\<rparr> acc)"
| "replay_tools api bs trs acc = acc"

fun replay :: "json_api \<Rightarrow> message list \<Rightarrow> pipeline_result \<Rightarrow> pipeline_result" where
  "replay api (AssistantMessage bs # ToolResultsMessage trs # ms) acc =
     replay api ms (replay_tools api bs trs acc)"
| "replay api (m # ms) acc = replay api ms acc"
| "replay api [] acc = acc"

text \<open>The key under which the merge loop stores an evaluation, if it stores it.\<close>

definition entry_key :: "json \<Rightarrow> json option" where
  "entry_key e =
     (case eval_id e of
        Inr (Some k) \<Rightarrow> if truthy k then Some k else None
      | _ \<Rightarrow> None)"

text \<open>The exact position \<open>i \<times> (n - 1) / (maxFrames - 1)\<close> of the \<open>i\<close>-th sample lies half-way
  between two indices.\<close>

definition half_way :: "nat \<Rightarrow> nat \<Rightarrow> nat \<Rightarrow> bool" where
  "half_way n maxFrames i =
     (frac (of_nat i * of_nat (n - 1) / of_nat (maxFrames - 1) :: rat) = 1 / 2)"

text \<open>
  An evaluation names an input assertion: the id under which the merge loop stores it, if
  it stores it, is the id of one of the assertions.
\<close>

definition names_input :: "assertion list \<Rightarrow> json \<Rightarrow> bool" where
  "names_input as e =
     (case entry_key e of None \<Rightarrow> True | Some k \<Rightarrow> k \<in> JStr ` id_a ` set as)"

text \<open>A response all of whose evaluations name input assertions; a response without an
  array of evaluations is one.\<close>

definition honest_reply :: "json_api \<Rightarrow> assertion list \<Rightarrow> response \<Rightarrow> bool" where
  "honest_reply api as resp =
     (case parse_array_field api ''evaluations'' (response_text resp) of
        Inl err \<Rightarrow> True
      | Inr es \<Rightarrow> list_all (names_input as) es)"

text \<open>The model answers every call with evaluations of input assertions only.\<close>

definition answers_input_ids :: "json_api \<Rightarrow> gateway \<Rightarrow> assertion list \<Rightarrow> bool" where
  "answers_input_ids api gw as = (\<forall>i resp. gw i = Inr resp \<longrightarrow> honest_reply api as resp)"

text \<open>
  \<^verbatim>\<open>JSON.parse\<close> reads the result of the \<^verbatim>\<open>evaluate_assertions\<close> tool back as
  \<^verbatim>\<open>JSON.stringify\<close> wrote it, for the evaluations of every response of the model.
\<close>

definition reads_back_reply :: "json_api \<Rightarrow> response \<Rightarrow> bool" where
  "reads_back_reply api resp =
     (case parse_array_field api ''evaluations'' (response_text resp) of
        Inl err \<Rightarrow> True
      | Inr es \<Rightarrow>
          JSON_parse api (JSON_stringify api (JObj [(''evaluations'', JArr es)])) =
            Some (JObj [(''evaluations'', JArr es)]))"

definition reads_back :: "json_api \<Rightarrow> gateway \<Rightarrow> bool" where
  "reads_back api gw = (\<forall>i resp. gw i = Inr resp \<longrightarrow> reads_back_reply api resp)"

chapter \<open>Properties\<close>

section \<open>Strategy dispatch\<close>

lemma two_pass_run:
  "runTwoPassPipeline std_json two_pass_gateway [login_assertion] =
     Inr \<lparr>timeline =
            [JObj [(''timestampSeconds'', JNum 0), (''description'', JStr ''Login screen shown'')]],
          evaluations =
            [(JStr ''a1'',
              JObj [(''assertionId'', JStr ''a1''), (''verdict'', JStr ''pass''),
                    (''confidence'', JNum (9 / 10))])]\<rparr>"
  by code_simp

text \<open>
  C10. Every strategy value other than the strings \<^verbatim>\<open>single\<close> and \<^verbatim>\<open>batch\<close>, undefined,
  the empty string and unknown names among them, makes \<^verbatim>\<open>runPipeline\<close> run the two-pass
  pipeline: the result is the two-pass result, never a rejection of the strategy.
\<close>

theorem runPipeline_unknown_strategy:
  assumes "strategy \<noteq> Some (JStr ''single'')" and "strategy \<noteq> Some (JStr ''batch'')"
  shows "runPipeline api gw strategy assertions = runTwoPassPipeline api gw assertions"
  using assms by (simp add: runPipeline_def js_or_def Let_def)

theorem runPipeline_unknown_strategy_witness:
  "runPipeline std_json two_pass_gateway (Some (JStr ''fastest'')) [login_assertion] =
     runTwoPassPipeline std_json two_pass_gateway [login_assertion]
   \<and> runPipeline std_json two_pass_gateway None [login_assertion] =
     runTwoPassPipeline std_json two_pass_gateway [login_assertion]
   \<and> runPipeline std_json two_pass_gateway (Some (JStr [])) [login_assertion] =
     runTwoPassPipeline std_json two_pass_gateway [login_assertion]
   \<and> (\<exists>r. runPipeline std_json two_pass_gateway (Some (JStr ''fastest'')) [login_assertion] = Inr r)"
  using runPipeline_unknown_strategy [of "Some (JStr ''fastest'')" std_json two_pass_gateway "[login_assertion]"]
    runPipeline_unknown_strategy [of None std_json two_pass_gateway "[login_assertion]"]
    runPipeline_unknown_strategy [of "Some (JStr [])" std_json two_pass_gateway "[login_assertion]"]
    two_pass_run
  by simp

section \<open>The evaluations map and its keys\<close>

lemma set_map_set: "set (map_set m k v) \<subseteq> insert (k, v) (set m)"
  by (induction m k v rule: map_set.induct) (auto split: if_splits)

lemma map_keys_map_set: "map_keys (map_set m k v) = insert k (map_keys m)"
  by (induction m k v rule: map_set.induct) (auto simp: map_keys_def split: if_splits)

lemma map_of_map_set_same: "is_primitive k \<Longrightarrow> map_of (map_set m k v) k = Some v"
  by (induction m) auto

lemma map_of_map_set_other: "k' \<noteq> k \<Longrightarrow> map_of (map_set m k v) k' = map_of m k'"
  by (induction m) auto


lemma eval_id_truthy: "truthy e \<Longrightarrow> \<exists>i. eval_id e = Inr i"
  by (cases e) (auto simp: eval_id_def)






lemma executeTool_Inr: "\<exists>env c'. executeTool api gw toolName toolInput c = (Inr env, c')"
proof -
  obtain res c' where t: "executeTool_try api gw toolName toolInput c = (res, c')"
    by (cases "executeTool_try api gw toolName toolInput c")
  show ?thesis using t by (cases res) (simp_all add: executeTool_def)
qed

lemma run_tools_Inr: "\<exists>res. run_tools api gw bs c trs acc = Inr res"
proof (induction api gw bs c trs acc rule: run_tools.induct)
  case (3 api gw toolUseId toolName toolInput bs c toolResults acc)
  let ?inp = "if truthy_opt toolInput then the toolInput else JObj []"
  obtain env c' where e: "executeTool api gw toolName ?inp c = (Inr env, c')"
    using executeTool_Inr by blast
  show ?case using "3.IH" [OF e [symmetric] refl] e by simp
qed simp_all



lemma single_entry_total: "\<exists>k v. single_entry a e0 = Inr (k, v)"
proof (cases e0)
  case None
  then show ?thesis by (simp add: single_entry_def)
next
  case (Some e)
  then show ?thesis using eval_id_truthy [of e] by (auto simp: single_entry_def)
qed

lemma single_loop_echo:
  assumes "\<forall>i < length as. \<exists>r v. gw (c + i) = Inr r
        \<and> single_entry (as ! i) (single_first api r) = Inr (JStr (id_a (as ! i)), v)"
  shows "\<exists>m. single_loop api gw c byId as = Inr m
     \<and> map_keys m = map_keys byId \<union> JStr ` id_a ` set as
     \<and> (\<forall>k. k \<notin> JStr ` id_a ` set as \<longrightarrow> map_of m k = map_of byId k)
     \<and> (distinct (map id_a as) \<longrightarrow>
          (\<forall>i < length as. \<forall>r v. gw (c + i) = Inr r
             \<longrightarrow> single_entry (as ! i) (single_first api r) = Inr (JStr (id_a (as ! i)), v)
             \<longrightarrow> map_of m (JStr (id_a (as ! i))) = Some v))"
  using assms
proof (induction as arbitrary: c byId)
  case Nil
  then show ?case by simp
next
  case (Cons a as)
  from Cons.prems [rule_format, of 0] obtain r v where r: "gw c = Inr r"
    and e: "single_entry a (single_first api r) = Inr (JStr (id_a a), v)" by auto
  let ?b = "map_set byId (JStr (id_a a)) v"
  have step: "single_loop api gw c byId (a # as) = single_loop api gw (Suc c) ?b as"
    using r e by simp
  have "\<forall>i < length as. \<exists>r v. gw (Suc c + i) = Inr r
        \<and> single_entry (as ! i) (single_first api r) = Inr (JStr (id_a (as ! i)), v)"
  proof (intro allI impI)
    fix i assume "i < length as"
    then show "\<exists>r v. gw (Suc c + i) = Inr r
        \<and> single_entry (as ! i) (single_first api r) = Inr (JStr (id_a (as ! i)), v)"
      using Cons.prems [rule_format, of "Suc i"] by simp
  qed
  from Cons.IH [OF this, of ?b] obtain m where m: "single_loop api gw (Suc c) ?b as = Inr m"
    and keys: "map_keys m = map_keys ?b \<union> JStr ` id_a ` set as"
    and other: "\<forall>k. k \<notin> JStr ` id_a ` set as \<longrightarrow> map_of m k = map_of ?b k"
    and val: "distinct (map id_a as) \<longrightarrow>
          (\<forall>i < length as. \<forall>r v. gw (Suc c + i) = Inr r
             \<longrightarrow> single_entry (as ! i) (single_first api r) = Inr (JStr (id_a (as ! i)), v)
             \<longrightarrow> map_of m (JStr (id_a (as ! i))) = Some v)"
    by blast
  have k1: "map_keys m = map_keys byId \<union> JStr ` id_a ` set (a # as)"
    using keys by (auto simp: map_keys_map_set)
  have k2: "\<forall>k. k \<notin> JStr ` id_a ` set (a # as) \<longrightarrow> map_of m k = map_of byId k"
    using other by (auto simp: map_of_map_set_other)
  have k3: "distinct (map id_a (a # as)) \<longrightarrow>
          (\<forall>i < length (a # as). \<forall>r v. gw (c + i) = Inr r
             \<longrightarrow> single_entry ((a # as) ! i) (single_first api r) = Inr (JStr (id_a ((a # as) ! i)), v)
             \<longrightarrow> map_of m (JStr (id_a ((a # as) ! i))) = Some v)"
  proof (intro impI allI)
    fix i r' v'
    assume d: "distinct (map id_a (a # as))" and i: "i < length (a # as)"
      and g: "gw (c + i) = Inr r'"
      and s: "single_entry ((a # as) ! i) (single_first api r') = Inr (JStr (id_a ((a # as) ! i)), v')"
    show "map_of m (JStr (id_a ((a # as) ! i))) = Some v'"
    proof (cases i)
      case 0
      then have "r' = r" "v' = v" using g r s e by auto
      moreover have "JStr (id_a a) \<notin> JStr ` id_a ` set as" using d by auto
      ultimately show ?thesis using other 0 by (simp add: map_of_map_set_same)
    next
      case (Suc j)
      then show ?thesis using val d i g s by auto
    qed
  qed
  show ?case using step m k1 k2 k3 by simp
qed

lemma foreign_batch_run:
  "runBatchPipeline std_json foreign_id_gateway [login_assertion] =
     Inr \<lparr>timeline = [], evaluations = [(JStr ''zzz'', foreign_evaluation)]\<rparr>"
  by code_simp

lemma foreign_single_run:
  "runSinglePipeline std_json foreign_id_gateway [login_assertion] =
     Inr \<lparr>timeline = [], evaluations = [(JStr ''zzz'', foreign_evaluation)]\<rparr>"
  by code_simp

lemma stolen_single_run:
  "runSinglePipeline std_json stolen_id_gateway [login_assertion, logout_assertion] =
     Inr \<lparr>timeline = [], evaluations =
       [(JStr ''a1'', JObj [(''assertionId'', JStr ''a1''), (''verdict'', JStr ''fail'')])]\<rparr>"
  by code_simp

lemma agent_run: "runAgenticPipeline std_json agent_gateway [login_assertion] = Inr agent_result"
  by code_simp

lemma login_id: "JStr ` id_a ` set [login_assertion] = {JStr ''a1''}"
  by (simp add: login_assertion_def)

lemma mixed_batch_run:
  "runBatchPipeline std_json mixed_gateway [login_assertion, logout_assertion] =
     Inr \<lparr>timeline = [], evaluations = [(JStr ''a1'', a1_pass)]\<rparr>"
  by code_simp

lemma mixed_single_run:
  "runSinglePipeline std_json mixed_gateway [login_assertion, logout_assertion] =
     Inr \<lparr>timeline = [],
          evaluations = [(JStr ''a1'', a1_pass), (JStr ''a2'', fallback_evaluation ''a2'')]\<rparr>"
  by code_simp

lemma tidy_run:
  "runAgenticPipeline std_json tidy_gateway [login_assertion] =
     Inr \<lparr>timeline = [login_entry], evaluations = [(JStr ''a1'', a1_pass)]\<rparr>"
  by code_simp

text \<open>The ids of the evaluations that a merge adds are keys of the map afterwards, and
  there are no other new keys.\<close>

lemma collect_keys_input:
  "list_all (names_input as) es \<Longrightarrow> map_keys m \<subseteq> JStr ` id_a ` set as \<Longrightarrow>
   map_keys (fst (collect_by_id m es)) \<subseteq> JStr ` id_a ` set as"
proof (induction es arbitrary: m)
  case Nil
  then show ?case by simp
next
  case (Cons e es)
  have rest: "list_all (names_input as) es" using Cons.prems(1) by simp
  show ?case
  proof (cases "eval_id e")
    case (Inl err)
    then show ?thesis using Cons.prems(2) by simp
  next
    case (Inr i)
    show ?thesis
    proof (cases i)
      case None
      then show ?thesis using Inr Cons.IH [OF rest Cons.prems(2)] by simp
    next
      case (Some k)
      show ?thesis
      proof (cases "truthy k")
        case False
        then show ?thesis using Inr Some Cons.IH [OF rest Cons.prems(2)] by simp
      next
        case True
        have "entry_key e = Some k" using Inr Some True by (simp add: entry_key_def)
        then have "k \<in> JStr ` id_a ` set as" using Cons.prems(1) by (simp add: names_input_def)
        then have "map_keys (map_set m k e) \<subseteq> JStr ` id_a ` set as"
          using Cons.prems(2) by (simp add: map_keys_map_set)
        from Cons.IH [OF rest this] show ?thesis using Inr Some True by simp
      qed
    qed
  qed
qed

lemma single_entry_key_input:
  assumes h: "honest_reply api as r" and a: "a \<in> set as"
    and e: "single_entry a (single_first api r) = Inr (k, v)"
  shows "k \<in> JStr ` id_a ` set as"
proof (cases "single_first api r")
  case None
  then show ?thesis using e a by (auto simp: single_entry_def)
next
  case (Some e0)
  then obtain es where p: "parse_array_field api ''evaluations'' (response_text r) = Inr (e0 # es)"
    by (auto simp: single_first_def split: sum.splits list.splits)
  have n: "names_input as e0" using h p by (simp add: honest_reply_def)
  show ?thesis
  proof (cases "truthy e0")
    case False
    then show ?thesis using e a Some by (auto simp: single_entry_def)
  next
    case True
    then obtain i where i: "eval_id e0 = Inr i" using eval_id_truthy by blast
    show ?thesis
    proof (cases "truthy_opt i")
      case False
      then show ?thesis using e a Some True i by (auto simp: single_entry_def)
    next
      case t: True
      then obtain k' where k': "i = Some k'" "truthy k'"
        by (cases i) (auto simp: truthy_opt_def)
      have "entry_key e0 = Some k'" using i k' by (simp add: entry_key_def)
      then have "k' \<in> JStr ` id_a ` set as" using n by (simp add: names_input_def)
      moreover have "k = k'" using e Some True i t k' by (simp add: single_entry_def)
      ultimately show ?thesis by simp
    qed
  qed
qed

lemma single_loop_keys_input:
  assumes h: "answers_input_ids api gw as0"
  shows "set as \<subseteq> set as0 \<Longrightarrow> map_keys byId \<subseteq> JStr ` id_a ` set as0 \<Longrightarrow>
    single_loop api gw c byId as = Inr m \<Longrightarrow> map_keys m \<subseteq> JStr ` id_a ` set as0"
proof (induction as arbitrary: c byId)
  case Nil
  then show ?case by simp
next
  case (Cons a as)
  from Cons.prems(3) obtain r where r: "gw c = Inr r" by (cases "gw c") auto
  obtain k v where kv: "single_entry a (single_first api r) = Inr (k, v)"
    using single_entry_total by blast
  have "honest_reply api as0 r" using h r unfolding answers_input_ids_def by blast
  then have "k \<in> JStr ` id_a ` set as0"
    using kv Cons.prems(1) by (intro single_entry_key_input [of api as0 r a k v]) auto
  then have keys: "map_keys (map_set byId k v) \<subseteq> JStr ` id_a ` set as0"
    using Cons.prems(2) by (simp add: map_keys_map_set)
  have "single_loop api gw (Suc c) (map_set byId k v) as = Inr m"
    using Cons.prems(3) r kv by simp
  then show ?case using Cons.IH [OF _ keys] Cons.prems(1) by simp
qed

text \<open>A successful result of the \<^verbatim>\<open>evaluate_assertions\<close> tool is the serialization of
  the evaluations of the response to the call that the tool made.\<close>

lemma executeTool_evaluations:
  assumes "executeTool api gw ''evaluate_assertions'' inp c = (Inr env, c')" and "\<not> isError env"
  shows "\<exists>resp es. gw c = Inr resp
    \<and> parse_array_field api ''evaluations'' (response_text resp) = Inr es
    \<and> content_e env = JSON_stringify api (JObj [(''evaluations'', JArr es)])"
proof -
  obtain res c1 where d: "evaluateAssertions api gw c = (res, c1)"
    by (cases "evaluateAssertions api gw c")
  have "\<exists>es. evaluateAssertions api gw c = (Inr es, c')
      \<and> content_e env = JSON_stringify api (JObj [(''evaluations'', JArr es)])"
    using assms d
    by (cases res; cases "get_prop inp ''timeline''")
      (auto simp: executeTool_def executeTool_try_def)
  then obtain es where es: "evaluateAssertions api gw c = (Inr es, c')"
    and ct: "content_e env = JSON_stringify api (JObj [(''evaluations'', JArr es)])" by blast
  from es obtain resp where "gw c = Inr resp"
    and "parse_array_field api ''evaluations'' (response_text resp) = Inr es"
    by (cases "gw c") (auto simp: evaluateAssertions_def)
  with ct show ?thesis by blast
qed

lemma harvest_keys_input:
  assumes h: "answers_input_ids api gw as" and rb: "reads_back api gw"
    and ex: "executeTool api gw n inp c = (Inr env, c')"
    and k: "map_keys (evaluations acc) \<subseteq> JStr ` id_a ` set as"
  shows "map_keys (evaluations (harvest api n env acc)) \<subseteq> JStr ` id_a ` set as"
proof (cases "n = ''evaluate_assertions'' \<and> \<not> isError env")
  case False
  then have "evaluations (harvest api n env acc) = evaluations acc"
    by (auto simp: harvest_def Let_def split: option.splits sum.splits json.splits)
  then show ?thesis using k by simp
next
  case True
  then obtain resp es where g: "gw c = Inr resp"
    and p: "parse_array_field api ''evaluations'' (response_text resp) = Inr es"
    and ct: "content_e env = JSON_stringify api (JObj [(''evaluations'', JArr es)])"
    using executeTool_evaluations [of api gw inp c env c'] ex by blast
  have "reads_back_reply api resp" using rb g unfolding reads_back_def by blast
  then have "JSON_parse api (content_e env) = Some (JObj [(''evaluations'', JArr es)])"
    using p ct by (simp add: reads_back_reply_def)
  then have "harvest api n env acc =
      acc\<lparr>evaluations := fst (collect_by_id (evaluations acc) es)\<rparr>"
    using True by (simp add: harvest_def)
  moreover have "list_all (names_input as) es"
  proof -
    have "honest_reply api as resp" using h g unfolding answers_input_ids_def by blast
    then show ?thesis using p by (simp add: honest_reply_def)
  qed
  ultimately show ?thesis using collect_keys_input [OF _ k] by simp
qed

lemma run_tools_keys_input:
  assumes h: "answers_input_ids api gw as" and rb: "reads_back api gw"
  shows "map_keys (evaluations acc) \<subseteq> JStr ` id_a ` set as \<Longrightarrow>
    run_tools api gw bs c trs acc = Inr (c', trs', acc') \<Longrightarrow>
    map_keys (evaluations acc') \<subseteq> JStr ` id_a ` set as"
proof (induction bs arbitrary: c trs acc)
  case Nil
  then show ?case by simp
next
  case (Cons b bs)
  show ?case
  proof (cases b)
    case (TextBlock t)
    then show ?thesis using Cons by simp
  next
    case (ToolUseBlock i n inp)
    let ?inp = "if truthy_opt inp then the inp else JObj []"
    obtain env c1 where ex: "executeTool api gw n ?inp c = (Inr env, c1)"
      using executeTool_Inr by blast
    have "map_keys (evaluations (harvest api n env acc)) \<subseteq> JStr ` id_a ` set as"
      using harvest_keys_input [OF h rb ex Cons.prems(1)] .
    moreover have "run_tools api gw bs c1 (trs @ [ToolResult i (content_e env) (isError env)])
        (harvest api n env acc) = Inr (c', trs', acc')"
      using Cons.prems(2) ToolUseBlock ex by simp
    ultimately show ?thesis using Cons.IH by blast
  qed
qed

lemma agentLoop_keys_input:
  assumes h: "answers_input_ids api gw as" and rb: "reads_back api gw"
  shows "map_keys (evaluations (harvested st)) \<subseteq> JStr ` id_a ` set as \<Longrightarrow>
    agentLoop api gw turn st = Inr st' \<Longrightarrow>
    map_keys (evaluations (harvested st')) \<subseteq> JStr ` id_a ` set as"
proof (induction "MAX_AGENT_TURNS - turn" arbitrary: turn st)
  case 0
  then show ?case by (simp add: agentLoop.simps [of api gw turn st])
next
  case (Suc n)
  then have lt: "turn < MAX_AGENT_TURNS" by simp
  show ?case
  proof (cases "gw (calls st)")
    case (Inl msg)
    with lt Suc.prems show ?thesis by (simp add: agentLoop.simps [of api gw turn st])
  next
    case (Inr r)
    let ?st1 = "st\<lparr>calls := Suc (calls st), messages := messages st @ [AssistantMessage (content r)]\<rparr>"
    show ?thesis
    proof (cases "stop_reason r \<noteq> ''tool_use''")
      case True
      with lt Inr Suc.prems show ?thesis
        by (auto simp add: agentLoop.simps [of api gw turn st] Let_def)
    next
      case False
      show ?thesis
      proof (cases "run_tools api gw (content r) (calls ?st1) [] (harvested ?st1)")
        case (Inl err)
        with False lt Inr Suc.prems show ?thesis
          by (simp add: agentLoop.simps [of api gw turn st] Let_def)
      next
        case rt: (Inr res)
        obtain c trs acc where res: "res = (c, trs, acc)" by (cases res)
        have keys: "map_keys (evaluations acc) \<subseteq> JStr ` id_a ` set as"
          using run_tools_keys_input [OF h rb _ rt [unfolded res]] Suc.prems(1) by simp
        let ?st2 = "?st1\<lparr>calls := c, messages := messages ?st1 @ [ToolResultsMessage trs], harvested := acc\<rparr>"
        have next_turn: "agentLoop api gw (Suc turn) ?st2 = Inr st'"
          using False lt Inr rt res Suc.prems(2)
          by (simp add: agentLoop.simps [of api gw turn st] Let_def)
        have m: "n = MAX_AGENT_TURNS - Suc turn" using Suc.hyps(2) by simp
        show ?thesis using Suc.hyps(1) [OF m _ next_turn] keys by simp
      qed
    qed
  qed
qed

text \<open>A gateway that plays a list of replies satisfies a condition on the responses when
  the replies of the list do.\<close>

lemma replies_all: "(\<forall>i resp. replies rs i = Inr resp \<longrightarrow> P resp) = list_all P rs"
  by (auto simp: replies_def list_all_length)

text \<open>
  C2, as amended. Let every evaluation in the responses of the model carry, as its
  \<^verbatim>\<open>assertionId\<close> or else as its \<^verbatim>\<open>id\<close>, the id of an input assertion or nothing
  truthy. Then for every run of the batch, two-pass and single strategies that returns a
  result, every key of the returned evaluations map is a string that is the id of an
  input assertion; and so for the agentic loop, where the evaluations pass through the
  tool result, when \<^verbatim>\<open>JSON.parse\<close> reads them back as \<^verbatim>\<open>JSON.stringify\<close> wrote them.
  No pipeline compares a key with the input assertion ids, so without the condition on
  the model an invented id is a key of the map.
\<close>

theorem evaluation_keys_are_input_ids:
  assumes "answers_input_ids api gw as"
  shows "(runBatchPipeline api gw as = Inr r \<longrightarrow>
        map_keys (evaluations r) \<subseteq> JStr ` id_a ` set as)
    \<and> (runTwoPassPipeline api gw as = Inr r \<longrightarrow>
        map_keys (evaluations r) \<subseteq> JStr ` id_a ` set as)
    \<and> (runSinglePipeline api gw as = Inr r \<longrightarrow>
        map_keys (evaluations r) \<subseteq> JStr ` id_a ` set as)
    \<and> (reads_back api gw \<and> runAgenticPipeline api gw as = Inr r \<longrightarrow>
        map_keys (evaluations r) \<subseteq> JStr ` id_a ` set as)"
proof (intro conjI impI)
  have empty: "map_keys [] \<subseteq> JStr ` id_a ` set as" by (simp add: map_keys_def)
  have merged: "map_keys (fst (collect_by_id [] es)) \<subseteq> JStr ` id_a ` set as"
    if "gw i = Inr resp" and "parse_array_field api ''evaluations'' (response_text resp) = Inr es"
    for i resp es
  proof -
    have "honest_reply api as resp" using assms that(1) unfolding answers_input_ids_def by blast
    then have "list_all (names_input as) es" using that(2) by (simp add: honest_reply_def)
    then show ?thesis using empty by (rule collect_keys_input)
  qed
  show "map_keys (evaluations r) \<subseteq> JStr ` id_a ` set as" if "runBatchPipeline api gw as = Inr r"
  proof -
    from that obtain resp es where "gw 0 = Inr resp"
      and "parse_array_field api ''evaluations'' (response_text resp) = Inr es"
      and "evaluations r = fst (collect_by_id [] es)"
      by (auto simp: runBatchPipeline_def split: sum.splits prod.splits option.splits)
    then show ?thesis using merged by simp
  qed
  show "map_keys (evaluations r) \<subseteq> JStr ` id_a ` set as" if "runTwoPassPipeline api gw as = Inr r"
  proof -
    from that obtain c resp es where "gw c = Inr resp"
      and "parse_array_field api ''evaluations'' (response_text resp) = Inr es"
      and "evaluations r = fst (collect_by_id [] es)"
      by (auto simp: runTwoPassPipeline_def describeTimeline_def evaluateAssertions_def
          split: sum.splits prod.splits option.splits)
    then show ?thesis using merged by simp
  qed
  show "map_keys (evaluations r) \<subseteq> JStr ` id_a ` set as" if "runSinglePipeline api gw as = Inr r"
  proof -
    from that obtain m where m: "single_loop api gw 0 [] as = Inr m" and r: "evaluations r = m"
      by (auto simp: runSinglePipeline_def split: sum.splits)
    show ?thesis using single_loop_keys_input [OF assms _ empty m] r by simp
  qed
  show "map_keys (evaluations r) \<subseteq> JStr ` id_a ` set as"
    if "reads_back api gw \<and> runAgenticPipeline api gw as = Inr r"
  proof -
    from that obtain st where st: "agentLoop api gw 0 initial_state = Inr st"
      and r: "r = harvested st"
      by (auto simp: runAgenticPipeline_def split: sum.splits)
    have "map_keys (evaluations (harvested initial_state)) \<subseteq> JStr ` id_a ` set as"
      by (simp add: initial_state_def map_keys_def)
    from agentLoop_keys_input [OF assms _ this st] that show ?thesis using r by simp
  qed
qed

lemma mixed_honest:
  "list_all (honest_reply std_json [login_assertion, logout_assertion])
     [login_pass_reply, logout_prose_reply]"
  by code_simp

lemma tidy_honest:
  "list_all (honest_reply std_json [login_assertion]) tidy_replies
   \<and> list_all (reads_back_reply std_json) tidy_replies"
  by code_simp

theorem evaluation_keys_are_input_ids_witness:
  "answers_input_ids std_json mixed_gateway [login_assertion, logout_assertion]
   \<and> runBatchPipeline std_json mixed_gateway [login_assertion, logout_assertion] =
       Inr \<lparr>timeline = [], evaluations = [(JStr ''a1'', a1_pass)]\<rparr>
   \<and> map_keys [(JStr ''a1'', a1_pass)] \<subseteq> JStr ` id_a ` set [login_assertion, logout_assertion]
   \<and> runSinglePipeline std_json mixed_gateway [login_assertion, logout_assertion] =
       Inr \<lparr>timeline = [],
            evaluations = [(JStr ''a1'', a1_pass), (JStr ''a2'', fallback_evaluation ''a2'')]\<rparr>
   \<and> map_keys [(JStr ''a1'', a1_pass), (JStr ''a2'', fallback_evaluation ''a2'')]
       \<subseteq> JStr ` id_a ` set [login_assertion, logout_assertion]
   \<and> answers_input_ids std_json tidy_gateway [login_assertion]
   \<and> reads_back std_json tidy_gateway
   \<and> runAgenticPipeline std_json tidy_gateway [login_assertion] =
       Inr \<lparr>timeline = [login_entry], evaluations = [(JStr ''a1'', a1_pass)]\<rparr>
   \<and> map_keys [(JStr ''a1'', a1_pass)] \<subseteq> JStr ` id_a ` set [login_assertion]"
proof -
  have m: "answers_input_ids std_json mixed_gateway [login_assertion, logout_assertion]"
    unfolding answers_input_ids_def mixed_gateway_def replies_all using mixed_honest .
  have t: "answers_input_ids std_json tidy_gateway [login_assertion]"
    unfolding answers_input_ids_def tidy_gateway_def replies_all using tidy_honest by blast
  have rb: "reads_back std_json tidy_gateway"
    unfolding reads_back_def tidy_gateway_def replies_all using tidy_honest by blast
  note k1 = evaluation_keys_are_input_ids [OF m,
      of "\<lparr>timeline = [], evaluations = [(JStr ''a1'', a1_pass)]\<rparr>"]
  note k2 = evaluation_keys_are_input_ids [OF m,
      of "\<lparr>timeline = [],
           evaluations = [(JStr ''a1'', a1_pass), (JStr ''a2'', fallback_evaluation ''a2'')]\<rparr>"]
  note k3 = evaluation_keys_are_input_ids [OF t,
      of "\<lparr>timeline = [login_entry], evaluations = [(JStr ''a1'', a1_pass)]\<rparr>"]
  have b: "map_keys [(JStr ''a1'', a1_pass)] \<subseteq> JStr ` id_a ` set [login_assertion, logout_assertion]"
    using k1 [THEN conjunct1] mixed_batch_run by simp
  have s: "map_keys [(JStr ''a1'', a1_pass), (JStr ''a2'', fallback_evaluation ''a2'')]
       \<subseteq> JStr ` id_a ` set [login_assertion, logout_assertion]"
    using k2 [THEN conjunct2, THEN conjunct2, THEN conjunct1] mixed_single_run by simp
  have a: "map_keys [(JStr ''a1'', a1_pass)] \<subseteq> JStr ` id_a ` set [login_assertion]"
    using k3 [THEN conjunct2, THEN conjunct2, THEN conjunct2] rb tidy_run by simp
  show ?thesis using m t rb b s a mixed_batch_run mixed_single_run tidy_run by blast
qed

lemma numeric_batch_run:
  "runBatchPipeline std_json numeric_id_gateway [login_assertion] =
     Inr \<lparr>timeline = [], evaluations = [(JNum 7, numeric_evaluation)]\<rparr>"
  by code_simp

text \<open>
  The claim C2 as stated fails: the batch strategy and the agentic loop return a map
  with the key \<^verbatim>\<open>zzz\<close>, which is no input assertion id, and the batch strategy
  returns a map with the number 7 for a key, which is no string.
\<close>

theorem batch_foreign_id_counterexample:
  "runBatchPipeline std_json foreign_id_gateway [login_assertion] =
     Inr \<lparr>timeline = [], evaluations = [(JStr ''zzz'', foreign_evaluation)]\<rparr>
   \<and> JStr ''zzz'' \<notin> JStr ` id_a ` set [login_assertion]
   \<and> runAgenticPipeline std_json agent_gateway [login_assertion] = Inr agent_result
   \<and> JStr ''zzz'' \<in> map_keys (evaluations agent_result)
   \<and> runBatchPipeline std_json numeric_id_gateway [login_assertion] =
     Inr \<lparr>timeline = [], evaluations = [(JNum 7, numeric_evaluation)]\<rparr>
   \<and> JNum 7 \<notin> range JStr"
  using foreign_batch_run agent_run numeric_batch_run
  by (auto simp: login_assertion_def map_keys_def agent_result_def)

text \<open>
  C1, as amended. When every call of \<^verbatim>\<open>runSinglePipeline\<close> is answered and no response
  carries, in its first evaluation, a truthy id other than that of the assertion it was
  asked about, the key set of the returned map is exactly the set of input assertion
  ids; and, the ids being distinct, every assertion whose response was empty,
  unparseable or without a truthy first evaluation is mapped to the fallback evaluation.
\<close>

theorem single_complete_when_echoed:
  assumes "echoes api gw as"
  shows "\<exists>m. runSinglePipeline api gw as = Inr \<lparr>timeline = [], evaluations = m\<rparr>
     \<and> map_keys m = JStr ` id_a ` set as
     \<and> (distinct (map id_a as) \<longrightarrow>
          (\<forall>i < length as. \<forall>r. gw i = Inr r \<longrightarrow> \<not> truthy_opt (single_first api r)
             \<longrightarrow> map_of m (JStr (id_a (as ! i))) = Some (fallback_evaluation (id_a (as ! i)))))"
proof -
  from assms have "\<forall>i < length as. \<exists>r v. gw (0 + i) = Inr r
        \<and> single_entry (as ! i) (single_first api r) = Inr (JStr (id_a (as ! i)), v)"
    by (simp add: echoes_def)
  from single_loop_echo [OF this, of "[]"] obtain m where
    m: "single_loop api gw 0 [] as = Inr m"
    and keys: "map_keys m = map_keys [] \<union> JStr ` id_a ` set as"
    and val: "distinct (map id_a as) \<longrightarrow>
          (\<forall>i < length as. \<forall>r v. gw (0 + i) = Inr r
             \<longrightarrow> single_entry (as ! i) (single_first api r) = Inr (JStr (id_a (as ! i)), v)
             \<longrightarrow> map_of m (JStr (id_a (as ! i))) = Some v)"
    by blast
  have fb: "single_entry a e0 = Inr (JStr (id_a a), fallback_evaluation (id_a a))"
    if "\<not> truthy_opt e0" for a e0
    using that by (cases e0) (auto simp: single_entry_def truthy_opt_def)
  have "runSinglePipeline api gw as = Inr \<lparr>timeline = [], evaluations = m\<rparr>"
    using m by (simp add: runSinglePipeline_def)
  moreover have "map_keys m = JStr ` id_a ` set as" using keys by (simp add: map_keys_def)
  moreover have "distinct (map id_a as) \<longrightarrow>
          (\<forall>i < length as. \<forall>r. gw i = Inr r \<longrightarrow> \<not> truthy_opt (single_first api r)
             \<longrightarrow> map_of m (JStr (id_a (as ! i))) = Some (fallback_evaluation (id_a (as ! i))))"
    using val fb by auto
  ultimately show ?thesis by blast
qed

lemma mixed_first:
  "single_entry login_assertion (single_first std_json login_pass_reply) =
     Inr (JStr (id_a login_assertion), JObj [(''assertionId'', JStr ''a1''), (''verdict'', JStr ''pass'')])"
  by code_simp

lemma mixed_second:
  "single_entry logout_assertion (single_first std_json logout_prose_reply) =
     Inr (JStr (id_a logout_assertion), fallback_evaluation ''a2'')"
  by code_simp

lemma mixed_second_falsy:
  "\<not> truthy_opt (single_first std_json logout_prose_reply)"
  by code_simp

lemma mixed_echoes: "echoes std_json mixed_gateway [login_assertion, logout_assertion]"
  unfolding echoes_def
proof (intro allI impI)
  fix i assume "i < length [login_assertion, logout_assertion]"
  then consider "i = 0" | "i = 1" by fastforce
  then show "\<exists>r v. mixed_gateway i = Inr r \<and>
             single_entry ([login_assertion, logout_assertion] ! i) (single_first std_json r) =
             Inr (JStr (id_a ([login_assertion, logout_assertion] ! i)), v)"
  proof cases
    case 1
    then show ?thesis using mixed_first by (simp add: mixed_gateway_def replies_def)
  next
    case 2
    then show ?thesis using mixed_second by (simp add: mixed_gateway_def replies_def)
  qed
qed

theorem single_complete_when_echoed_witness:
  "echoes std_json mixed_gateway [login_assertion, logout_assertion]
   \<and> (\<exists>m. runSinglePipeline std_json mixed_gateway [login_assertion, logout_assertion] =
          Inr \<lparr>timeline = [], evaluations = m\<rparr>
        \<and> map_keys m = {JStr ''a1'', JStr ''a2''}
        \<and> map_of m (JStr ''a2'') = Some (fallback_evaluation ''a2''))"
proof -
  from single_complete_when_echoed [OF mixed_echoes] obtain m where
    run: "runSinglePipeline std_json mixed_gateway [login_assertion, logout_assertion] =
          Inr \<lparr>timeline = [], evaluations = m\<rparr>"
    and keys: "map_keys m = JStr ` id_a ` set [login_assertion, logout_assertion]"
    and fb: "distinct (map id_a [login_assertion, logout_assertion]) \<longrightarrow>
          (\<forall>i < length [login_assertion, logout_assertion]. \<forall>r. mixed_gateway i = Inr r
             \<longrightarrow> \<not> truthy_opt (single_first std_json r)
             \<longrightarrow> map_of m (JStr (id_a ([login_assertion, logout_assertion] ! i))) =
                Some (fallback_evaluation (id_a ([login_assertion, logout_assertion] ! i))))"
    by blast
  have d: "distinct (map id_a [login_assertion, logout_assertion])"
    by (simp add: login_assertion_def logout_assertion_def)
  have g: "mixed_gateway 1 = Inr logout_prose_reply"
    by (simp add: mixed_gateway_def replies_def)
  from fb d g mixed_second_falsy
  have "map_of m (JStr (id_a ([login_assertion, logout_assertion] ! 1))) =
      Some (fallback_evaluation (id_a ([login_assertion, logout_assertion] ! 1)))"
    by (metis One_nat_def length_Cons lessI list.size(3))
  then have "map_of m (JStr ''a2'') = Some (fallback_evaluation ''a2'')"
    by (simp add: logout_assertion_def)
  moreover have "map_keys m = {JStr ''a1'', JStr ''a2''}"
    using keys by (simp add: login_assertion_def logout_assertion_def)
  ultimately show ?thesis using run mixed_echoes by blast
qed

text \<open>
  The claim C1 as stated fails. A response that names another id is stored under that id
  and the assertion asked about has no entry; and an assertion whose response was prose
  loses its fallback evaluation when a later response carries its id.
\<close>

theorem single_foreign_id_counterexample:
  "runSinglePipeline std_json foreign_id_gateway [login_assertion] =
     Inr \<lparr>timeline = [], evaluations = [(JStr ''zzz'', foreign_evaluation)]\<rparr>
   \<and> map_keys [(JStr ''zzz'', foreign_evaluation)] = {JStr ''zzz''}
   \<and> JStr ` id_a ` set [login_assertion] = {JStr ''a1''}
   \<and> runSinglePipeline std_json stolen_id_gateway [login_assertion, logout_assertion] =
     Inr \<lparr>timeline = [], evaluations =
       [(JStr ''a1'', JObj [(''assertionId'', JStr ''a1''), (''verdict'', JStr ''fail'')])]\<rparr>"
  using foreign_single_run login_id stolen_single_run by (simp add: map_keys_def)

section \<open>Parse failures in the strategies\<close>

text \<open>
  C3. The claim: a response that is not valid JSON is caught inside every strategy and
  degrades to an empty result. The single strategy does that; the batch and two-pass
  strategies have no handler around \<^verbatim>\<open>parseJsonFromResponse\<close>: the error leaves the
  pipeline and \<^verbatim>\<open>runPipeline\<close>.
\<close>

theorem unparseable_response_aborts_batch_and_two_pass:
  assumes "gw 0 = Inr r" and "JSON_parse api (strip_fence (response_text r)) = None"
  shows "runBatchPipeline api gw as = Inl (MalformedOutput (strip_fence (response_text r)))
    \<and> runTwoPassPipeline api gw as = Inl (MalformedOutput (strip_fence (response_text r)))
    \<and> runPipeline api gw (Some (JStr ''batch'')) as =
        Inl (MalformedOutput (strip_fence (response_text r)))
    \<and> runPipeline api gw None as = Inl (MalformedOutput (strip_fence (response_text r)))"
  using assms
  by (simp add: runBatchPipeline_def runTwoPassPipeline_def runPipeline_def js_or_def
      truthy_opt_def describeTimeline_def parse_array_field_def parseJsonFromResponse_def)

lemma prose_gateway_0: "prose_gateway 0 = Inr prose_reply"
  by (simp add: prose_gateway_def replies_def)

lemma prose_unparseable:
  "JSON_parse std_json (strip_fence (response_text prose_reply)) = None"
  by code_simp

lemma prose_stripped: "strip_fence (response_text prose_reply) = ''The video shows a login screen.''"
  by code_simp

lemma prose_single:
  "runPipeline std_json prose_gateway (Some (JStr ''single'')) [login_assertion] =
     Inr \<lparr>timeline = [], evaluations = [(JStr ''a1'', fallback_evaluation ''a1'')]\<rparr>"
  by code_simp

theorem unparseable_response_aborts_batch_and_two_pass_witness:
  "prose_gateway 0 = Inr prose_reply
   \<and> JSON_parse std_json (strip_fence (response_text prose_reply)) = None
   \<and> strip_fence (response_text prose_reply) = ''The video shows a login screen.''
   \<and> runPipeline std_json prose_gateway (Some (JStr ''batch'')) [login_assertion] =
       Inl (MalformedOutput ''The video shows a login screen.'')
   \<and> runPipeline std_json prose_gateway None [login_assertion] =
       Inl (MalformedOutput ''The video shows a login screen.'')
   \<and> runPipeline std_json prose_gateway (Some (JStr ''single'')) [login_assertion] =
       Inr \<lparr>timeline = [], evaluations = [(JStr ''a1'', fallback_evaluation ''a1'')]\<rparr>"
  using unparseable_response_aborts_batch_and_two_pass
      [where gw = prose_gateway and api = std_json and as = "[login_assertion]",
       OF prose_gateway_0 prose_unparseable]
    prose_gateway_0 prose_unparseable prose_single prose_stripped
  by simp

section \<open>Timelines of the strategies\<close>

lemma agent_timeline: "timeline agent_result \<noteq> []"
  by (simp add: agent_result_def)

text \<open>
  C9. Whatever the assertions and the model responses, every result that
  \<^verbatim>\<open>runBatchPipeline\<close> or \<^verbatim>\<open>runSinglePipeline\<close> returns, called directly or through
  \<^verbatim>\<open>runPipeline\<close>, has the empty array as its timeline. The two-pass pipeline and the
  agentic loop can return a timeline that is not empty.
\<close>

theorem batch_single_timeline_empty:
  "(runBatchPipeline api gw as = Inr r \<longrightarrow> timeline r = [])
   \<and> (runSinglePipeline api gw as = Inr r \<longrightarrow> timeline r = [])
   \<and> (runPipeline api gw (Some (JStr ''batch'')) as = Inr r \<longrightarrow> timeline r = [])
   \<and> (runPipeline api gw (Some (JStr ''single'')) as = Inr r \<longrightarrow> timeline r = [])
   \<and> (\<exists>api' gw' as' r'. runTwoPassPipeline api' gw' as' = Inr r' \<and> timeline r' \<noteq> [])
   \<and> (\<exists>api' gw' as' r'. runAgenticPipeline api' gw' as' = Inr r' \<and> timeline r' \<noteq> [])"
proof (intro conjI impI)
  have b: "timeline r = []" if "runBatchPipeline api gw as = Inr r" for r
    using that
    by (auto simp: runBatchPipeline_def split: sum.splits prod.splits option.splits)
  have s: "timeline r = []" if "runSinglePipeline api gw as = Inr r" for r
    using that by (auto simp: runSinglePipeline_def split: sum.splits)
  show "timeline r = []" if "runBatchPipeline api gw as = Inr r" using that by (rule b)
  show "timeline r = []" if "runSinglePipeline api gw as = Inr r" using that by (rule s)
  show "timeline r = []" if "runPipeline api gw (Some (JStr ''batch'')) as = Inr r"
    using that b by (simp add: runPipeline_def js_or_def truthy_opt_def)
  show "timeline r = []" if "runPipeline api gw (Some (JStr ''single'')) as = Inr r"
    using that s by (simp add: runPipeline_def js_or_def truthy_opt_def)
  show "\<exists>api' gw' as' r'. runTwoPassPipeline api' gw' as' = Inr r' \<and> timeline r' \<noteq> []"
    using two_pass_run by (intro exI conjI) (assumption, simp)
  show "\<exists>api' gw' as' r'. runAgenticPipeline api' gw' as' = Inr r' \<and> timeline r' \<noteq> []"
    using agent_run agent_timeline by blast
qed

lemma foreign_dispatch:
  "runPipeline std_json foreign_id_gateway (Some (JStr ''batch'')) [login_assertion] =
     Inr \<lparr>timeline = [], evaluations = [(JStr ''zzz'', foreign_evaluation)]\<rparr>"
  by code_simp

theorem batch_single_timeline_empty_witness:
  "runBatchPipeline std_json foreign_id_gateway [login_assertion] =
     Inr \<lparr>timeline = [], evaluations = [(JStr ''zzz'', foreign_evaluation)]\<rparr>
   \<and> runPipeline std_json foreign_id_gateway (Some (JStr ''batch'')) [login_assertion] =
     Inr \<lparr>timeline = [], evaluations = [(JStr ''zzz'', foreign_evaluation)]\<rparr>
   \<and> timeline \<lparr>timeline = [], evaluations = [(JStr ''zzz'', foreign_evaluation)]\<rparr> = []
   \<and> runSinglePipeline std_json mixed_gateway [login_assertion, logout_assertion] =
     Inr \<lparr>timeline = [],
          evaluations = [(JStr ''a1'', a1_pass), (JStr ''a2'', fallback_evaluation ''a2'')]\<rparr>
   \<and> timeline \<lparr>timeline = [],
          evaluations = [(JStr ''a1'', a1_pass), (JStr ''a2'', fallback_evaluation ''a2'')]\<rparr> = []"
  using batch_single_timeline_empty [of std_json foreign_id_gateway "[login_assertion]"
      "\<lparr>timeline = [], evaluations = [(JStr ''zzz'', foreign_evaluation)]\<rparr>"]
    batch_single_timeline_empty [of std_json mixed_gateway "[login_assertion, logout_assertion]"
      "\<lparr>timeline = [],
        evaluations = [(JStr ''a1'', a1_pass), (JStr ''a2'', fallback_evaluation ''a2'')]\<rparr>"]
    foreign_batch_run foreign_dispatch mixed_single_run
  by simp

section \<open>The reference serializer and parser\<close>

lemma hex_digit_val_all: "\<forall>k \<in> {0..<16}. hex_val (hex_digit k) = Some k"
  by code_simp

lemma hex_digit_val: "k < 16 \<Longrightarrow> hex_val (hex_digit k) = Some k"
  using hex_digit_val_all by simp

lemma hex4_control:
  assumes "(of_char c :: nat) < 32"
  shows "hex4 [CHR ''0'', CHR ''0'', hex_digit ((of_char c :: nat) div 16),
               hex_digit ((of_char c :: nat) mod 16)] = Some c"
proof -
  let ?n = "of_char c :: nat"
  have a: "hex_val (hex_digit (?n div 16)) = Some (?n div 16)"
    using assms by (intro hex_digit_val) simp
  have b: "hex_val (hex_digit (?n mod 16)) = Some (?n mod 16)"
    by (intro hex_digit_val) simp
  have z: "hex_val CHR ''0'' = Some 0" by (simp add: hex_val_def)
  have "char_of (16 * (?n div 16) + ?n mod 16) = c" by simp
  then show ?thesis using a b z by (simp add: hex4_def)
qed

lemma parse_string_escape:
  "parse_string (escape_char c @ rest) acc = parse_string rest (acc @ [c])"
proof (cases "(of_char c :: nat) < 32")
  case True
  note small = this
  show ?thesis
  proof (cases "c = CHR 0x08 \<or> c = CHR 0x0C \<or> c = CHR 0x0A \<or> c = CHR 0x0D \<or> c = CHR 0x09")
    case True
    then show ?thesis by (auto simp: escape_char_def unescape_def)
  next
    case False
    have q: "c \<noteq> CHR 0x22" "c \<noteq> CHR 0x5C" using small by auto
    show ?thesis using False q small hex4_control [OF small]
      by (simp add: escape_char_def)
  qed
next
  case False
  show ?thesis
  proof (cases "c = CHR 0x22 \<or> c = CHR 0x5C")
    case True
    then show ?thesis by (auto simp: escape_char_def unescape_def)
  next
    case q: False
    have "c \<noteq> CHR 0x08" "c \<noteq> CHR 0x0C" "c \<noteq> CHR 0x0A" "c \<noteq> CHR 0x0D" "c \<noteq> CHR 0x09"
      using False by auto
    then show ?thesis using False q by (simp add: escape_char_def)
  qed
qed

lemma parse_string_quoted:
  "parse_string (concat (map escape_char s) @ CHR 0x22 # rest) acc = Some (acc @ s, rest)"
proof (induction s arbitrary: acc)
  case Nil
  then show ?case by simp
next
  case (Cons c cs)
  have "parse_string (concat (map escape_char (c # cs)) @ CHR 0x22 # rest) acc =
        parse_string (escape_char c @ (concat (map escape_char cs) @ CHR 0x22 # rest)) acc"
    by simp
  also have "\<dots> = parse_string (concat (map escape_char cs) @ CHR 0x22 # rest) (acc @ [c])"
    by (rule parse_string_escape)
  also have "\<dots> = Some ((acc @ [c]) @ cs, rest)" by (rule Cons.IH)
  finally show ?case by simp
qed

text \<open>
  The reference parser reads back what the reference serializer writes: decimal digits,
  then numbers, then values by induction on their structure.
\<close>

declare digits_of.simps [simp del]

lemma hex_digit_is_digit: "d < 10 \<Longrightarrow> is_digit (hex_digit d) \<and> digit_val (hex_digit d) = d"
proof -
  have "\<forall>d \<in> {0..<10}. is_digit (hex_digit d) \<and> digit_val (hex_digit d) = d" by code_simp
  then show "d < 10 \<Longrightarrow> is_digit (hex_digit d) \<and> digit_val (hex_digit d) = d" by simp
qed

lemma digits_of_digits: "\<forall>c \<in> set (digits_of n). is_digit c"
proof (induction n rule: digits_of.induct)
  case (1 n)
  show ?case
  proof (cases "n < 10")
    case True
    then show ?thesis using hex_digit_is_digit [of n] by (simp add: digits_of.simps [of n])
  next
    case False
    have "n mod 10 < 10" by simp
    then have "is_digit (hex_digit (n mod 10))" using hex_digit_is_digit by blast
    then show ?thesis using False 1 by (simp add: digits_of.simps [of n])
  qed
qed

lemma nat_of_digits_snoc: "nat_of_digits (ds @ [d]) = 10 * nat_of_digits ds + digit_val d"
  by (simp add: nat_of_digits_def)

lemma nat_of_digits_of: "nat_of_digits (digits_of n) = n"
proof (induction n rule: digits_of.induct)
  case (1 n)
  show ?case
  proof (cases "n < 10")
    case True
    then show ?thesis using hex_digit_is_digit [of n]
      by (simp add: digits_of.simps [of n] nat_of_digits_def)
  next
    case False
    have d: "digit_val (hex_digit (n mod 10)) = n mod 10"
      using hex_digit_is_digit [of "n mod 10"] by simp
    have "nat_of_digits (digits_of n) = 10 * nat_of_digits (digits_of (n div 10)) + n mod 10"
      using False d by (simp add: digits_of.simps [of n] nat_of_digits_snoc)
    then show ?thesis using 1 False by simp
  qed
qed

lemma digits_of_nonempty: "digits_of n \<noteq> []"
  by (simp add: digits_of.simps [of n])

lemma hex_digit_zero: "d < 10 \<Longrightarrow> hex_digit d = CHR ''0'' \<longleftrightarrow> d = 0"
proof -
  have "\<forall>d \<in> {0..<10}. hex_digit d = CHR ''0'' \<longleftrightarrow> d = 0" by code_simp
  then show "d < 10 \<Longrightarrow> hex_digit d = CHR ''0'' \<longleftrightarrow> d = 0" by simp
qed

lemma digits_of_hd: "0 < n \<Longrightarrow> hd (digits_of n) \<noteq> CHR ''0''"
proof (induction n rule: digits_of.induct)
  case (1 n)
  show ?case
  proof (cases "n < 10")
    case True
    then show ?thesis using "1.prems" hex_digit_zero [of n] by (simp add: digits_of.simps [of n])
  next
    case False
    then have "0 < n div 10" by simp
    then have "hd (digits_of (n div 10)) \<noteq> CHR ''0''" using 1 False by simp
    then show ?thesis using False digits_of_nonempty [of "n div 10"]
      by (simp add: digits_of.simps [of n])
  qed
qed

lemma digits_of_single_zero: "length (digits_of n) > 1 \<Longrightarrow> \<not> starts_with CHR ''0'' (digits_of n)"
proof -
  assume l: "length (digits_of n) > 1"
  have "0 < n"
  proof (rule ccontr)
    assume "\<not> 0 < n"
    then have "n = 0" by simp
    then have "digits_of n = [hex_digit 0]" by (simp add: digits_of.simps [of 0])
    with l show False by simp
  qed
  then have "hd (digits_of n) \<noteq> CHR ''0''" by (rule digits_of_hd)
  then show ?thesis using digits_of_nonempty [of n]
    by (cases "digits_of n") (auto simp: starts_with_def)
qed

lemma fraction_digits_zero: "fraction_digits k 0 q = []"
  by (cases k) simp_all

lemma number_text_int:
  assumes "snd (quotient_of r) = 1"
  shows "\<exists>a. r = of_int a \<and>
    number_text r = (if a < 0 then ''-'' else []) @ digits_of (nat \<bar>a\<bar>)"
proof -
  obtain a where q: "quotient_of r = (a, 1)" using assms by (cases "quotient_of r") simp
  have r: "r = of_int a" using quotient_of_div [OF q] by simp
  have "number_text r = (if a < 0 then ''-'' else []) @ digits_of (nat \<bar>a\<bar>)"
    by (simp add: number_text_def q fraction_digits_zero)
  with r show ?thesis by blast
qed

lemma delimited_facts:
  assumes "delimited rest"
  shows "takeWhile is_digit rest = []" "dropWhile is_digit rest = rest"
    "\<not> starts_with CHR ''.'' rest" "\<not> starts_with CHR ''e'' rest" "\<not> starts_with CHR ''E'' rest"
    "skip_ws rest = rest"
  using assms
  by (cases rest; auto simp: delimited_def starts_with_def is_digit_def skip_ws_def is_json_ws_def)+

lemma digits_then_rest:
  assumes "delimited rest"
  shows "takeWhile is_digit (digits_of m @ rest) = digits_of m"
    and "dropWhile is_digit (digits_of m @ rest) = rest"
proof -
  have d: "\<And>c. c \<in> set (digits_of m) \<Longrightarrow> is_digit c" using digits_of_digits by blast
  show "takeWhile is_digit (digits_of m @ rest) = digits_of m"
    using d delimited_facts(1) [OF assms] by (simp add: takeWhile_append2)
  show "dropWhile is_digit (digits_of m @ rest) = rest"
    using d delimited_facts(2) [OF assms] by (simp add: dropWhile_append2)
qed

lemma digits_of_no_minus: "\<not> starts_with CHR ''-'' (digits_of m @ rest)"
proof -
  obtain c cs where c: "digits_of m = c # cs" using digits_of_nonempty [of m] by (cases "digits_of m") auto
  have "is_digit c" using digits_of_digits [of m] c by simp
  then have "c \<noteq> CHR ''-''" by (auto simp: is_digit_def)
  then show ?thesis by (simp add: c starts_with_def)
qed

lemma parse_number_digits:
  assumes "delimited rest"
  shows "parse_number (digits_of m @ rest) = Some (of_nat m, rest)"
proof -
  have z: "\<not> (length (digits_of m) > 1 \<and> starts_with CHR ''0'' (digits_of m))"
    using digits_of_single_zero [of m] by blast
  show ?thesis
    unfolding parse_number_def
    using z digits_of_nonempty [of m]
    by (simp add: digits_of_no_minus digits_then_rest [OF assms] delimited_facts [OF assms]
        nat_of_digits_of pow10_def nat_of_digits_def [of "[]"] Let_def)
qed

lemma parse_number_minus:
  assumes "delimited rest"
  shows "parse_number (CHR ''-'' # digits_of m @ rest) = Some (- of_nat m, rest)"
proof -
  have z: "\<not> (length (digits_of m) > 1 \<and> starts_with CHR ''0'' (digits_of m))"
    using digits_of_single_zero [of m] by blast
  have s: "starts_with CHR ''-'' (CHR ''-'' # digits_of m @ rest)" by (simp add: starts_with_def)
  show ?thesis
    unfolding parse_number_def
    using z digits_of_nonempty [of m] s
    by (simp add: digits_then_rest [OF assms] delimited_facts [OF assms]
        nat_of_digits_of pow10_def nat_of_digits_def [of "[]"] Let_def)
qed

lemma parse_number_text:
  assumes "snd (quotient_of r) = 1" and "delimited rest"
  shows "parse_number (number_text r @ rest) = Some (r, rest)"
proof -
  obtain a where r: "r = of_int a"
    and t: "number_text r = (if a < 0 then ''-'' else []) @ digits_of (nat \<bar>a\<bar>)"
    using number_text_int [OF assms(1)] by blast
  show ?thesis
  proof (cases "a < 0")
    case True
    have v: "r = - of_nat (nat \<bar>a\<bar>)" using True r by simp
    have "parse_number (number_text r @ rest) =
          parse_number (CHR ''-'' # digits_of (nat \<bar>a\<bar>) @ rest)"
      using True by (simp add: t)
    also have "\<dots> = Some (- of_nat (nat \<bar>a\<bar>), rest)"
      by (rule parse_number_minus [OF assms(2)])
    finally show ?thesis using v by simp
  next
    case False
    have v: "r = of_nat (nat \<bar>a\<bar>)" using False r by simp
    have "parse_number (number_text r @ rest) = parse_number (digits_of (nat \<bar>a\<bar>) @ rest)"
      using False by (simp add: t)
    also have "\<dots> = Some (of_nat (nat \<bar>a\<bar>), rest)"
      by (rule parse_number_digits [OF assms(2)])
    finally show ?thesis using v by simp
  qed
qed

lemma number_text_head:
  "\<exists>c cs. number_text r = c # cs \<and> (c = CHR ''-'' \<or> is_digit c)"
proof -
  obtain a b where q: "quotient_of r = (a, b)" by (cases "quotient_of r")
  let ?m = "nat \<bar>a\<bar> div nat b"
  obtain d ds where d: "digits_of ?m = d # ds"
    using digits_of_nonempty [of ?m] by (cases "digits_of ?m") auto
  have g: "is_digit d" using digits_of_digits [of ?m] d by simp
  obtain sfx where t: "number_text r = (if a < 0 then ''-'' else []) @ digits_of ?m @ sfx"
    by (simp add: number_text_def q Let_def)
  show ?thesis unfolding t d using g by simp
qed

lemma std_stringify_head: "\<exists>c cs. std_stringify v = c # cs \<and> value_start c"
proof (cases v)
  case (JNum r)
  obtain c cs where c: "number_text r = c # cs" "c = CHR ''-'' \<or> is_digit c"
    using number_text_head [of r] by blast
  have "value_start c" using c(2)
    by (auto simp: value_start_def is_digit_def is_json_ws_def is_space_def)
  then show ?thesis using JNum c(1) by simp
qed (simp_all add: value_start_def is_json_ws_def is_space_def quote_string_def)

lemma skip_ws_value: "value_start c \<Longrightarrow> skip_ws (c # cs) = c # cs"
  by (simp add: skip_ws_def value_start_def)

lemma join_with_head:
  "\<exists>c cs. join_with sep (map std_stringify (x # xs)) @ rest = c # cs \<and> value_start c"
proof -
  obtain c cs where c: "std_stringify x = c # cs" "value_start c"
    using std_stringify_head [of x] by blast
  then show ?thesis by (cases xs) simp_all
qed

lemma obj_put_fresh: "k \<notin> fst ` set acc \<Longrightarrow> obj_put acc k v = acc @ [(k, v)]"
  by (induction acc) auto

lemma parse_elements_join:
  assumes ih: "\<And>y n rest. y \<in> set (x # xs) \<Longrightarrow> parse_depth y \<le> n \<Longrightarrow> delimited rest \<Longrightarrow>
      parse_value n (std_stringify y @ rest) = Some (y, rest)"
    and n: "sum_list (map (\<lambda>x. Suc (parse_depth x)) (x # xs)) \<le> n"
  shows "parse_elements n (join_with '','' (map std_stringify (x # xs)) @ CHR '']'' # rest) acc =
         Some (acc @ x # xs, rest)"
  using ih n
proof (induction xs arbitrary: x acc n)
  case Nil
  obtain n' where n': "n = Suc n'" "parse_depth x \<le> n'" using Nil.prems(2) by (cases n) auto
  have "parse_value n' (std_stringify x @ CHR '']'' # rest) = Some (x, CHR '']'' # rest)"
    using Nil.prems(1) [of x n' "CHR '']'' # rest"] n'(2) by (simp add: delimited_def)
  then show ?case by (simp add: n'(1) skip_ws_def is_json_ws_def starts_with_def)
next
  case (Cons y ys)
  obtain n' where n': "n = Suc n'" "parse_depth x \<le> n'"
    "sum_list (map (\<lambda>x. Suc (parse_depth x)) (y # ys)) \<le> n'"
    using Cons.prems(2) by (cases n) auto
  let ?tail = "join_with '','' (map std_stringify (y # ys)) @ CHR '']'' # rest"
  have v: "parse_value n' (std_stringify x @ CHR '','' # ?tail) = Some (x, CHR '','' # ?tail)"
    using Cons.prems(1) [of x n' "CHR '','' # ?tail"] n'(2) by (simp add: delimited_def)
  obtain c cs where c: "?tail = c # cs" "value_start c"
    using join_with_head [of "'',''" y ys "CHR '']'' # rest"] by blast
  have s: "skip_ws ?tail = ?tail" using c skip_ws_value by simp
  have r: "parse_elements n' ?tail (acc @ [x]) = Some ((acc @ [x]) @ y # ys, rest)"
    using Cons.prems(1) n'(3) by (intro Cons.IH) auto
  have "parse_elements (Suc n') (std_stringify x @ CHR '','' # ?tail) acc =
        parse_elements n' ?tail (acc @ [x])"
    using v s by (simp add: skip_ws_def is_json_ws_def starts_with_def)
  then show ?case using r by (simp add: n'(1))
qed

lemma parse_member_name:
  shows "starts_with CHR 0x22 (member_text (k, v) @ tail)"
    and "parse_string (tl (member_text (k, v) @ tail)) [] = Some (k, CHR '':'' # std_stringify v @ tail)"
proof -
  show "starts_with CHR 0x22 (member_text (k, v) @ tail)"
    by (simp add: member_text_def quote_string_def starts_with_def)
  show "parse_string (tl (member_text (k, v) @ tail)) [] = Some (k, CHR '':'' # std_stringify v @ tail)"
    using parse_string_quoted [of k "CHR '':'' # std_stringify v @ tail" "[]"]
    by (simp add: member_text_def quote_string_def)
qed

lemma parse_member_value:
  assumes "parse_depth v \<le> n" and "delimited tail"
    and ih: "\<And>n rest. parse_depth v \<le> n \<Longrightarrow> delimited rest \<Longrightarrow>
      parse_value n (std_stringify v @ rest) = Some (v, rest)"
  shows "parse_value n (skip_ws (tl (skip_ws (CHR '':'' # std_stringify v @ tail)))) = Some (v, tail)"
proof -
  obtain c cs where c: "std_stringify v = c # cs" "value_start c"
    using std_stringify_head [of v] by blast
  have "skip_ws (tl (skip_ws (CHR '':'' # std_stringify v @ tail))) = std_stringify v @ tail"
    using c skip_ws_value [of c "cs @ tail"] by (simp add: skip_ws_def is_json_ws_def)
  then show ?thesis using ih [OF assms(1,2)] by simp
qed

lemma member_join_head:
  "\<exists>cs. join_with '','' (map member_text (kv # kvs)) @ rest = CHR 0x22 # cs"
  by (cases kvs) (simp_all add: member_text_def quote_string_def)

lemma parse_members_join:
  assumes ih: "\<And>k v n rest. (k, v) \<in> set (kv # kvs) \<Longrightarrow> parse_depth v \<le> n \<Longrightarrow> delimited rest \<Longrightarrow>
      parse_value n (std_stringify v @ rest) = Some (v, rest)"
    and n: "sum_list (map (\<lambda>kv. Suc (parse_depth (snd kv))) (kv # kvs)) \<le> n"
    and d: "distinct (map fst (acc @ kv # kvs))"
  shows "parse_members n (join_with '','' (map member_text (kv # kvs)) @ CHR ''}'' # rest) acc =
         Some (acc @ kv # kvs, rest)"
  using ih n d
proof (induction kvs arbitrary: kv acc n)
  case Nil
  obtain k v where kv: "kv = (k, v)" by (cases kv)
  obtain n' where n': "n = Suc n'" "parse_depth v \<le> n'" using Nil.prems(2) kv by (cases n) auto
  have dl: "delimited (CHR ''}'' # rest)" by (simp add: delimited_def)
  have ihv: "\<And>n rest. parse_depth v \<le> n \<Longrightarrow> delimited rest \<Longrightarrow>
      parse_value n (std_stringify v @ rest) = Some (v, rest)"
    using Nil.prems(1) [of k v] kv by simp
  note m = parse_member_name [of k v] parse_member_value [OF n'(2) dl ihv]
  have f: "obj_put acc k v = acc @ [(k, v)]"
    using Nil.prems(3) kv by (intro obj_put_fresh) auto
  show ?case
    using m f by (simp add: kv n'(1) skip_ws_def is_json_ws_def starts_with_def)
next
  case (Cons kv2 kvs)
  obtain k v where kv: "kv = (k, v)" by (cases kv)
  obtain n' where n': "n = Suc n'" "parse_depth v \<le> n'"
    "sum_list (map (\<lambda>kv. Suc (parse_depth (snd kv))) (kv2 # kvs)) \<le> n'"
    using Cons.prems(2) kv by (cases n) auto
  let ?tail = "join_with '','' (map member_text (kv2 # kvs)) @ CHR ''}'' # rest"
  have dl: "delimited (CHR '','' # ?tail)" by (simp add: delimited_def)
  have ihv: "\<And>n rest. parse_depth v \<le> n \<Longrightarrow> delimited rest \<Longrightarrow>
      parse_value n (std_stringify v @ rest) = Some (v, rest)"
    using Cons.prems(1) [of k v] kv by simp
  note m = parse_member_name [of k v] parse_member_value [OF n'(2) dl ihv]
  have f: "obj_put acc k v = acc @ [(k, v)]"
    using Cons.prems(3) kv by (intro obj_put_fresh) auto
  obtain cs where c: "?tail = CHR 0x22 # cs"
    using member_join_head [of kv2 kvs "CHR ''}'' # rest"] by blast
  have s: "skip_ws ?tail = ?tail" unfolding c by (simp add: skip_ws_def is_json_ws_def)
  have r: "parse_members n' ?tail (acc @ [(k, v)]) = Some ((acc @ [(k, v)]) @ kv2 # kvs, rest)"
    using Cons.prems(1,3) n'(3) kv by (intro Cons.IH) auto
  have "parse_members (Suc n') (member_text (k, v) @ CHR '','' # ?tail) acc =
        parse_members n' ?tail (acc @ [(k, v)])"
    using m f s by (simp add: skip_ws_def is_json_ws_def starts_with_def)
  then show ?case using r by (simp add: n'(1) kv)
qed

lemma stringify_members:
  "std_stringify (JObj kvs) = ''{'' @ join_with '','' (map member_text kvs) @ ''}''"
proof -
  have "(\<lambda>kv. quote_string (fst kv) @ '':'' @ std_stringify (snd kv)) = member_text"
    by (rule ext) (simp add: member_text_def)
  then show ?thesis by simp
qed

lemma parse_value_stringify:
  "plain_json v \<Longrightarrow> parse_depth v \<le> n \<Longrightarrow> delimited rest \<Longrightarrow>
   parse_value n (std_stringify v @ rest) = Some (v, rest)"
proof (induction v arbitrary: n rest)
  case JNull
  then obtain n' where "n = Suc n'" by (cases n) auto
  then show ?case by simp
next
  case (JBool b)
  then obtain n' where "n = Suc n'" by (cases n) auto
  then show ?case by simp
next
  case (JNum r)
  then obtain n' where n': "n = Suc n'" by (cases n) auto
  obtain c cs where c: "number_text r = c # cs" "c = CHR ''-'' \<or> is_digit c"
    using number_text_head [of r] by blast
  have ne: "c \<noteq> CHR ''n''" "c \<noteq> CHR ''t''" "c \<noteq> CHR ''f''" "c \<noteq> CHR 0x22" "c \<noteq> CHR ''[''"
    "c \<noteq> CHR ''{''"
    using c(2) by (auto simp: is_digit_def)
  have "parse_number (number_text r @ rest) = Some (r, rest)"
    using JNum.prems by (intro parse_number_text) simp_all
  then have "parse_number (c # cs @ rest) = Some (r, rest)" by (simp add: c(1))
  then show ?case using ne by (simp add: n' c(1))
next
  case (JStr s)
  then obtain n' where n': "n = Suc n'" by (cases n) auto
  show ?case using parse_string_quoted [of s rest "[]"] by (simp add: n' quote_string_def)
next
  case (JArr xs)
  obtain n' where n': "n = Suc n'" "sum_list (map (\<lambda>x. Suc (parse_depth x)) xs) \<le> n'"
    using JArr.prems(2) by (cases n) auto
  show ?case
  proof (cases xs)
    case Nil
    then show ?thesis by (simp add: n'(1) skip_ws_def is_json_ws_def starts_with_def)
  next
    case (Cons y ys)
    let ?body = "join_with '','' (map std_stringify (y # ys)) @ CHR '']'' # rest"
    obtain c cs where c: "?body = c # cs" "value_start c"
      using join_with_head [of "'',''" y ys "CHR '']'' # rest"] by blast
    have s: "skip_ws ?body = ?body" "\<not> starts_with CHR '']'' ?body"
      using c skip_ws_value [of c cs] by (simp_all add: starts_with_def value_start_def)
    have "parse_elements n' ?body [] = Some ([] @ y # ys, rest)"
    proof (rule parse_elements_join)
      show "sum_list (map (\<lambda>x. Suc (parse_depth x)) (y # ys)) \<le> n'" using n'(2) Cons by simp
    next
      fix z m r
      assume z: "z \<in> set (y # ys)" "parse_depth z \<le> m" "delimited r"
      have "plain_json z" using JArr.prems(1) z(1) Cons by (auto simp: list_all_iff)
      then show "parse_value m (std_stringify z @ r) = Some (z, r)"
        using JArr.IH [of z m r] z Cons by simp
    qed
    then have "parse_value (Suc n') (CHR ''['' # ?body) = Some (JArr (y # ys), rest)"
      using s by simp
    then show ?thesis by (simp add: n'(1) Cons)
  qed
next
  case (JObj kvs)
  obtain n' where n': "n = Suc n'" "sum_list (map (\<lambda>kv. Suc (parse_depth (snd kv))) kvs) \<le> n'"
    using JObj.prems(2) by (cases n) auto
  show ?case
  proof (cases kvs)
    case Nil
    then show ?thesis by (simp add: n'(1) skip_ws_def is_json_ws_def starts_with_def)
  next
    case (Cons y ys)
    let ?body = "join_with '','' (map member_text (y # ys)) @ CHR ''}'' # rest"
    obtain cs where c: "?body = CHR 0x22 # cs"
      using member_join_head [of y ys "CHR ''}'' # rest"] by blast
    have s: "skip_ws ?body = ?body" "\<not> starts_with CHR ''}'' ?body"
      unfolding c by (simp_all add: starts_with_def skip_ws_def is_json_ws_def)
    have "parse_members n' ?body [] = Some ([] @ y # ys, rest)"
    proof (rule parse_members_join)
      show "sum_list (map (\<lambda>kv. Suc (parse_depth (snd kv))) (y # ys)) \<le> n'"
        using n'(2) Cons by simp
    next
      show "distinct (map fst ([] @ y # ys))" using JObj.prems(1) Cons by simp
    next
      fix k z m r
      assume z: "(k, z) \<in> set (y # ys)" "parse_depth z \<le> m" "delimited r"
      have "plain_json z" using JObj.prems(1) z(1) Cons by (auto simp: list_all_iff)
      moreover have "z \<in> Basic_BNFs.snds (k, z)" by simp
      ultimately show "parse_value m (std_stringify z @ r) = Some (z, r)"
        using JObj.IH [of "(k, z)" z m r] z Cons by simp
    qed
    then have "parse_value (Suc n') (CHR ''{'' # ?body) = Some (JObj (y # ys), rest)"
      using s by simp
    then show ?thesis unfolding stringify_members by (simp add: n'(1) Cons)
  qed
qed

lemma depth_join:
  assumes "\<And>x. x \<in> set xs \<Longrightarrow> d x \<le> 2 * length (t x)"
  shows "sum_list (map (\<lambda>x. Suc (d x)) xs) \<le> 2 * length (join_with '','' (map t xs)) + 1"
  using assms
proof (induction xs rule: induct_list012)
  case 1
  then show ?case by simp
next
  case (2 x)
  then show ?case by simp
next
  case (3 x y zs)
  have "d x \<le> 2 * length (t x)" using 3(3) by simp
  moreover have "sum_list (map (\<lambda>x. Suc (d x)) (y # zs))
      \<le> 2 * length (join_with '','' (map t (y # zs))) + 1"
    using 3(3) by (intro 3(2)) simp
  ultimately show ?case by simp
qed

lemma parse_depth_text: "parse_depth v \<le> 2 * length (std_stringify v)"
proof (induction v)
  case (JNum r)
  obtain c cs where "number_text r = c # cs" using number_text_head [of r] by blast
  then show ?case by simp
next
  case (JArr xs)
  have "sum_list (map (\<lambda>x. Suc (parse_depth x)) xs)
      \<le> 2 * length (join_with '','' (map std_stringify xs)) + 1"
    using JArr by (intro depth_join) simp
  then show ?case by simp
next
  case (JObj kvs)
  have "sum_list (map (\<lambda>kv. Suc (parse_depth (snd kv))) kvs)
      \<le> 2 * length (join_with '','' (map member_text kvs)) + 1"
  proof (rule depth_join)
    fix kv assume kv: "kv \<in> set kvs"
    have "snd kv \<in> Basic_BNFs.snds kv" by (cases kv) simp
    then have "parse_depth (snd kv) \<le> 2 * length (std_stringify (snd kv))"
      using JObj kv by blast
    then show "parse_depth (snd kv) \<le> 2 * length (member_text kv)"
      by (simp add: member_text_def)
  qed
  then show ?case unfolding stringify_members by simp
qed (simp_all add: quote_string_def)

lemma std_parse_stringify:
  assumes "plain_json v"
  shows "std_parse (std_stringify v) = Some v"
proof -
  obtain c cs where c: "std_stringify v = c # cs" "value_start c"
    using std_stringify_head [of v] by blast
  have s: "skip_ws (std_stringify v) = std_stringify v"
    using c skip_ws_value [of c cs] by simp
  have "parse_value (2 * length (std_stringify v) + 2) (std_stringify v @ []) = Some (v, [])"
    using parse_depth_text [of v] assms by (intro parse_value_stringify) (simp_all add: delimited_def)
  then have p: "parse_value (2 * length (std_stringify v) + 2) (std_stringify v) = Some (v, [])"
    by (simp only: append_Nil2)
  show ?thesis unfolding std_parse_def s p by (simp add: skip_ws_def)
qed

lemma std_stringify_last: "plain_json v \<Longrightarrow> \<not> is_space (last (std_stringify v))"
proof (cases v)
  case (JNum r)
  assume "plain_json v"
  then obtain a where t: "number_text r = (if a < 0 then ''-'' else []) @ digits_of (nat \<bar>a\<bar>)"
    using number_text_int [of r] JNum by auto
  have "is_digit (last (digits_of (nat \<bar>a\<bar>)))"
    using digits_of_digits [of "nat \<bar>a\<bar>"] digits_of_nonempty [of "nat \<bar>a\<bar>"] last_in_set by blast
  then have "\<not> is_space (last (digits_of (nat \<bar>a\<bar>)))" by (auto simp: is_digit_def is_space_def)
  then show ?thesis using JNum digits_of_nonempty [of "nat \<bar>a\<bar>"] by (simp add: t)
qed (simp_all add: is_space_def quote_string_def)

lemma trim_stringify:
  assumes "plain_json v"
  shows "trim (std_stringify v) = std_stringify v"
proof -
  obtain c cs where c: "std_stringify v = c # cs" "value_start c"
    using std_stringify_head [of v] by blast
  have h: "dropWhile is_space (std_stringify v) = std_stringify v"
    using c by (simp add: value_start_def)
  have "std_stringify v \<noteq> []" using c(1) by simp
  then obtain ys z where yz: "std_stringify v = ys @ [z]"
    by (metis rev_exhaust)
  have "\<not> is_space z" using std_stringify_last [OF assms] by (simp add: yz)
  then have "dropWhile is_space (rev (std_stringify v)) = rev (std_stringify v)"
    by (simp add: yz)
  then show ?thesis unfolding trim_def h by simp
qed

section \<open>Tool executor\<close>

lemma std_parse_error_object:
  "std_parse (std_stringify (JObj [(''error'', JStr s)])) = Some (JObj [(''error'', JStr s)])"
proof -
  let ?body = "concat (map escape_char s)"
  let ?text = "CHR ''{'' # CHR 0x22 # ''error'' @ CHR 0x22 # CHR '':'' # CHR 0x22 # ?body @ [CHR 0x22, CHR ''}'']"
  have t: "std_stringify (JObj [(''error'', JStr s)]) = ?text"
    by (simp add: quote_string_def escape_char_def)
  obtain k where k: "2 * length ?text + 2 = Suc (Suc (Suc k))"
    by (simp add: numeral_eq_Suc)
  have key: "parse_string (''error'' @ CHR 0x22 # CHR '':'' # CHR 0x22 # ?body @ [CHR 0x22, CHR ''}'']) [] =
      Some (''error'', CHR '':'' # CHR 0x22 # ?body @ [CHR 0x22, CHR ''}''])"
    by simp
  have val: "parse_string (?body @ [CHR 0x22, CHR ''}'']) [] = Some (s, [CHR ''}''])"
    using parse_string_quoted [of s "[CHR ''}'']" "[]"] by simp
  have "parse_value (Suc (Suc (Suc k))) ?text = Some (JObj [(''error'', JStr s)], [])"
    using key val by (simp add: starts_with_def skip_ws_def is_json_ws_def)
  then show ?thesis
    unfolding t std_parse_def k [symmetric]
    by (simp add: skip_ws_def is_json_ws_def k)
qed

text \<open>
  C7. \<^verbatim>\<open>executeTool\<close> returns an envelope on every path and never throws: what its
  \<^verbatim>\<open>try\<close> block throws becomes an error envelope. For every tool name other than
  \<^verbatim>\<open>describe_timeline\<close> and \<^verbatim>\<open>evaluate_assertions\<close> and every input, the envelope has
  \<^verbatim>\<open>isError = true\<close> and its content is the serialization of
  \<^verbatim>\<open>{error: 'Unknown tool: <name>'}\<close>, no model call is made, and under the reference
  implementation of the JSON built-ins the content parses back to that object.
\<close>

theorem executeTool_returns_envelope:
  "(\<exists>env c'. executeTool api gw toolName toolInput c = (Inr env, c'))
   \<and> (\<forall>err c'. executeTool_try api gw toolName toolInput c = (Inl err, c') \<longrightarrow>
         executeTool api gw toolName toolInput c =
           (Inr \<lparr>content_e = JSON_stringify api (JObj [(''error'', JStr (error_message api err))]),
                 isError = True\<rparr>, c'))
   \<and> (toolName \<noteq> ''describe_timeline'' \<and> toolName \<noteq> ''evaluate_assertions'' \<longrightarrow>
         executeTool api gw toolName toolInput c =
           (Inr \<lparr>content_e =
                   JSON_stringify api (JObj [(''error'', JStr (''Unknown tool: '' @ toolName))]),
                 isError = True\<rparr>, c)
         \<and> JSON_parse std_json
               (JSON_stringify std_json (JObj [(''error'', JStr (''Unknown tool: '' @ toolName))])) =
             Some (JObj [(''error'', JStr (''Unknown tool: '' @ toolName))]))"
proof (intro conjI allI impI)
  obtain res c' where t: "executeTool_try api gw toolName toolInput c = (res, c')"
    by (cases "executeTool_try api gw toolName toolInput c")
  show "\<exists>env c'. executeTool api gw toolName toolInput c = (Inr env, c')"
    using t by (cases res) (simp_all add: executeTool_def)
next
  fix err c'
  assume "executeTool_try api gw toolName toolInput c = (Inl err, c')"
  then show "executeTool api gw toolName toolInput c =
           (Inr \<lparr>content_e = JSON_stringify api (JObj [(''error'', JStr (error_message api err))]),
                 isError = True\<rparr>, c')"
    by (simp add: executeTool_def)
next
  assume "toolName \<noteq> ''describe_timeline'' \<and> toolName \<noteq> ''evaluate_assertions''"
  then show "executeTool api gw toolName toolInput c =
           (Inr \<lparr>content_e =
                   JSON_stringify api (JObj [(''error'', JStr (''Unknown tool: '' @ toolName))]),
                 isError = True\<rparr>, c)"
    by (simp add: executeTool_def executeTool_try_def)
next
  show "JSON_parse std_json
          (JSON_stringify std_json (JObj [(''error'', JStr (''Unknown tool: '' @ toolName))])) =
        Some (JObj [(''error'', JStr (''Unknown tool: '' @ toolName))])"
    using std_parse_error_object [of "''Unknown tool: '' @ toolName"]
    by (simp add: std_json_def)
qed

lemma describe_prose_try:
  "executeTool_try std_json prose_gateway ''describe_timeline'' (JObj []) 0 =
     (Inl (MalformedOutput ''The video shows a login screen.''), 1)"
  by code_simp

theorem executeTool_returns_envelope_witness:
  "executeTool std_json prose_gateway ''zoom_in'' (JObj []) 0 =
     (Inr \<lparr>content_e =
             JSON_stringify std_json (JObj [(''error'', JStr ''Unknown tool: zoom_in'')]),
           isError = True\<rparr>, 0)
   \<and> JSON_parse std_json
         (JSON_stringify std_json (JObj [(''error'', JStr ''Unknown tool: zoom_in'')])) =
       Some (JObj [(''error'', JStr ''Unknown tool: zoom_in'')])
   \<and> executeTool_try std_json prose_gateway ''describe_timeline'' (JObj []) 0 =
       (Inl (MalformedOutput ''The video shows a login screen.''), 1)
   \<and> executeTool std_json prose_gateway ''describe_timeline'' (JObj []) 0 =
       (Inr \<lparr>content_e = JSON_stringify std_json
               (JObj [(''error'',
                  JStr ''Unexpected token in JSON: The video shows a login screen.'')]),
             isError = True\<rparr>, 1)"
  using executeTool_returns_envelope [of std_json prose_gateway "''zoom_in''" "JObj []" 0]
    executeTool_returns_envelope [of std_json prose_gateway "''describe_timeline''" "JObj []" 0]
    describe_prose_try
  by (simp add: std_json_def std_syntax_error_def)

section \<open>Agentic loop\<close>

lemma agentLoop_outcome:
  "(\<exists>st'. agentLoop api gw turn st = Inr st'
        \<and> assistant_turns (messages st') \<le> assistant_turns (messages st) + (MAX_AGENT_TURNS - turn))
   \<or> (\<exists>msg i. agentLoop api gw turn st = Inl (TransportError msg) \<and> gw i = Inl msg)"
proof (induction api gw turn st rule: agentLoop.induct)
  case (1 api gw turn st)
  show ?case
  proof (cases "turn < MAX_AGENT_TURNS")
    case False
    then show ?thesis by (simp add: agentLoop.simps [of api gw turn st])
  next
    case True
    show ?thesis
    proof (cases "gw (calls st)")
      case (Inl msg)
      with True show ?thesis by (auto simp add: agentLoop.simps [of api gw turn st])
    next
      case (Inr r)
      let ?st1 = "st\<lparr>calls := Suc (calls st), messages := messages st @ [AssistantMessage (content r)]\<rparr>"
      show ?thesis
      proof (cases "stop_reason r \<noteq> ''tool_use''")
        case stop: True
        have "agentLoop api gw turn st = Inr ?st1"
          using True Inr stop by (simp add: agentLoop.simps [of api gw turn st] Let_def)
        moreover have "assistant_turns (messages ?st1) \<le> assistant_turns (messages st) + (MAX_AGENT_TURNS - turn)"
          using True by (simp add: assistant_turns_def)
        ultimately show ?thesis by blast
      next
        case False
        obtain c trs acc where rt: "run_tools api gw (content r) (calls ?st1) [] (harvested ?st1) = Inr (c, trs, acc)"
          using run_tools_Inr [of api gw "content r" "calls ?st1" "[]" "harvested ?st1"] by (metis prod_cases3)
        let ?st2 = "?st1\<lparr>calls := c, messages := messages ?st1 @ [ToolResultsMessage trs], harvested := acc\<rparr>"
        have step: "agentLoop api gw turn st = agentLoop api gw (Suc turn) ?st2"
          using True Inr False rt by (simp add: agentLoop.simps [of api gw turn st] Let_def)
        have t2: "assistant_turns (messages ?st2) = Suc (assistant_turns (messages st))"
          by (simp add: assistant_turns_def)
        from "1.IH" [OF True Inr refl False rt refl refl]
        show ?thesis unfolding step t2 using True by auto
      qed
    qed
  qed
qed

text \<open>The harvest that a turn leaves is that of its tool results, in order.\<close>

lemma run_tools_replay:
  "run_tools api gw bs c trs acc = Inr (c', trs', acc') \<Longrightarrow>
   \<exists>new. trs' = trs @ new \<and> acc' = replay_tools api bs new acc"
proof (induction api gw bs c trs acc rule: run_tools.induct)
  case (1 api gw c toolResults acc)
  then show ?case by simp
next
  case (2 api gw t bs c toolResults acc)
  then show ?case by simp
next
  case (3 api gw toolUseId toolName toolInput bs c toolResults acc)
  let ?inp = "if truthy_opt toolInput then the toolInput else JObj []"
  obtain res c1 where ex: "executeTool api gw toolName ?inp c = (res, c1)"
    by (cases "executeTool api gw toolName ?inp c")
  show ?case
  proof (cases res)
    case (Inl err)
    with 3 ex show ?thesis by simp
  next
    case (Inr env)
    let ?tr = "ToolResult toolUseId (content_e env) (isError env)"
    have "run_tools api gw bs c1 (toolResults @ [?tr]) (harvest api toolName env acc) =
        Inr (c', trs', acc')"
      using "3.prems" ex Inr by simp
    from "3.IH" [OF ex [symmetric] Inr this] obtain new where
      n: "trs' = (toolResults @ [?tr]) @ new"
      and a: "acc' = replay_tools api bs new (harvest api toolName env acc)" by blast
    obtain ct ie where env: "env = \<lparr>content_e = ct, isError = ie\<rparr>" by (cases env)
    have "acc' = replay_tools api (ToolUseBlock toolUseId toolName toolInput # bs) (?tr # new) acc"
      using a by (simp add: env)
    with n show ?thesis by simp
  qed
qed

lemma replay_assistant: "replay api (ms @ [AssistantMessage bs]) acc = replay api ms acc"
  by (induction api ms acc rule: replay.induct) simp_all

lemma replay_turn:
  "replay api (ms @ [AssistantMessage bs, ToolResultsMessage trs]) acc =
     replay_tools api bs trs (replay api ms acc)"
  by (induction api ms acc rule: replay.induct) simp_all

text \<open>At every exit of the loop the harvest is that of the conversation so far.\<close>

lemma agentLoop_replay:
  "harvested st = replay api (messages st) acc0 \<Longrightarrow> agentLoop api gw turn st = Inr st' \<Longrightarrow>
   harvested st' = replay api (messages st') acc0"
proof (induction api gw turn st rule: agentLoop.induct)
  case (1 api gw turn st)
  show ?case
  proof (cases "turn < MAX_AGENT_TURNS")
    case False
    with "1.prems" show ?thesis by (simp add: agentLoop.simps [of api gw turn st])
  next
    case True
    show ?thesis
    proof (cases "gw (calls st)")
      case (Inl msg)
      with True "1.prems" show ?thesis by (simp add: agentLoop.simps [of api gw turn st])
    next
      case (Inr r)
      let ?st1 = "st\<lparr>calls := Suc (calls st), messages := messages st @ [AssistantMessage (content r)]\<rparr>"
      show ?thesis
      proof (cases "stop_reason r \<noteq> ''tool_use''")
        case stop: True
        have "st' = ?st1"
          using True Inr stop "1.prems"(2) by (simp add: agentLoop.simps [of api gw turn st] Let_def)
        then show ?thesis using "1.prems"(1) by (simp add: replay_assistant)
      next
        case False
        show ?thesis
        proof (cases "run_tools api gw (content r) (calls ?st1) [] (harvested ?st1)")
          case (Inl err)
          with False True Inr "1.prems" show ?thesis
            by (simp add: agentLoop.simps [of api gw turn st] Let_def)
        next
          case rt: (Inr res)
          obtain c trs acc where res: "res = (c, trs, acc)" by (cases res)
          from run_tools_replay [OF rt [unfolded res]]
          have acc: "acc = replay_tools api (content r) trs (harvested st)" by simp
          let ?st2 = "?st1\<lparr>calls := c, messages := messages ?st1 @ [ToolResultsMessage trs], harvested := acc\<rparr>"
          have next_turn: "agentLoop api gw (Suc turn) ?st2 = Inr st'"
            using False True Inr rt res "1.prems"(2)
            by (simp add: agentLoop.simps [of api gw turn st] Let_def)
          have "harvested ?st2 = replay api (messages ?st2) acc0"
            using acc "1.prems"(1) replay_turn [of api "messages st" "content r" trs acc0] by simp
          then show ?thesis
            using "1.IH" [OF True Inr refl False rt [unfolded res] refl refl _ next_turn] by blast
        qed
      qed
    qed
  qed
qed

text \<open>
  C4. For every sequence of model responses the agentic loop runs at most 10 turns.
  When every call is answered the pipeline returns a result, also when the turn budget
  runs out: at turn 10 the loop ends with the state it has. What the pipeline returns
  is the harvest of the state at the exit of the loop, and that is the harvest of all the
  tool results of the conversation up to there, in order; the only error that can leave
  the loop is a failure of a request to the model. A response whose stop reason is not
  \<^verbatim>\<open>tool_use\<close> ends the loop at once, with the harvest as it was before that turn.
\<close>

theorem agentLoop_bounded:
  "((\<forall>i. \<exists>r. gw i = Inr r) \<longrightarrow> (\<exists>res. runAgenticPipeline api gw as = Inr res))
   \<and> (agentLoop api gw 0 initial_state = Inr st' \<longrightarrow>
        assistant_turns (messages st') \<le> 10
        \<and> runAgenticPipeline api gw as = Inr (harvested st')
        \<and> harvested st' = replay api (messages st') \<lparr>timeline = [], evaluations = []\<rparr>)
   \<and> (runAgenticPipeline api gw as = Inr res \<longrightarrow>
        (\<exists>st. agentLoop api gw 0 initial_state = Inr st \<and> res = harvested st))
   \<and> (runAgenticPipeline api gw as = Inl err \<longrightarrow> (\<exists>msg i. err = TransportError msg \<and> gw i = Inl msg))
   \<and> (turn < MAX_AGENT_TURNS \<and> gw (calls st) = Inr r \<and> stop_reason r \<noteq> ''tool_use'' \<longrightarrow>
        agentLoop api gw turn st =
          Inr (st\<lparr>calls := Suc (calls st),
                   messages := messages st @ [AssistantMessage (content r)]\<rparr>)
        \<and> (\<forall>st2. agentLoop api gw turn st = Inr st2 \<longrightarrow> harvested st2 = harvested st))
   \<and> agentLoop api gw MAX_AGENT_TURNS st = Inr st
   \<and> (agentLoop api gw turn st = Inr st2 \<and> harvested st = replay api (messages st) acc0 \<longrightarrow>
        harvested st2 = replay api (messages st2) acc0)"
proof (intro conjI impI allI)
  assume all: "\<forall>i. \<exists>r. gw i = Inr r"
  from agentLoop_outcome [of api gw 0 initial_state]
  show "\<exists>res. runAgenticPipeline api gw as = Inr res"
  proof
    assume "\<exists>st'. agentLoop api gw 0 initial_state = Inr st'
        \<and> assistant_turns (messages st') \<le> assistant_turns (messages initial_state) + (MAX_AGENT_TURNS - 0)"
    then show ?thesis by (auto simp: runAgenticPipeline_def)
  next
    assume "\<exists>msg i. agentLoop api gw 0 initial_state = Inl (TransportError msg) \<and> gw i = Inl msg"
    with all show ?thesis by (metis Inl_Inr_False)
  qed
next
  assume "agentLoop api gw 0 initial_state = Inr st'"
  with agentLoop_outcome [of api gw 0 initial_state]
  show "assistant_turns (messages st') \<le> 10"
    by (auto simp: initial_state_def assistant_turns_def MAX_AGENT_TURNS_def)
next
  assume "agentLoop api gw 0 initial_state = Inr st'"
  then show "runAgenticPipeline api gw as = Inr (harvested st')"
    by (simp add: runAgenticPipeline_def)
next
  assume run: "agentLoop api gw 0 initial_state = Inr st'"
  have "harvested initial_state =
      replay api (messages initial_state) \<lparr>timeline = [], evaluations = []\<rparr>"
    by (simp add: initial_state_def)
  from agentLoop_replay [OF this run]
  show "harvested st' = replay api (messages st') \<lparr>timeline = [], evaluations = []\<rparr>" .
next
  assume "runAgenticPipeline api gw as = Inr res"
  then obtain st where "agentLoop api gw 0 initial_state = Inr st" and "res = harvested st"
    by (auto simp: runAgenticPipeline_def split: sum.splits)
  then show "\<exists>st. agentLoop api gw 0 initial_state = Inr st \<and> res = harvested st" by blast
next
  assume "runAgenticPipeline api gw as = Inl err"
  with agentLoop_outcome [of api gw 0 initial_state]
  show "\<exists>msg i. err = TransportError msg \<and> gw i = Inl msg"
    by (auto simp: runAgenticPipeline_def split: sum.splits)
next
  assume "turn < MAX_AGENT_TURNS \<and> gw (calls st) = Inr r \<and> stop_reason r \<noteq> ''tool_use''"
  then show "agentLoop api gw turn st =
          Inr (st\<lparr>calls := Suc (calls st),
                   messages := messages st @ [AssistantMessage (content r)]\<rparr>)"
    by (simp add: agentLoop.simps [of api gw turn st] Let_def)
next
  fix st2
  assume "turn < MAX_AGENT_TURNS \<and> gw (calls st) = Inr r \<and> stop_reason r \<noteq> ''tool_use''"
    and "agentLoop api gw turn st = Inr st2"
  then show "harvested st2 = harvested st"
    by (auto simp add: agentLoop.simps [of api gw turn st] Let_def)
next
  show "agentLoop api gw MAX_AGENT_TURNS st = Inr st"
    by (simp add: agentLoop.simps [of api gw MAX_AGENT_TURNS st])
next
  assume "agentLoop api gw turn st = Inr st2 \<and> harvested st = replay api (messages st) acc0"
  then show "harvested st2 = replay api (messages st2) acc0"
    using agentLoop_replay by blast
qed

lemma busy_answers: "\<forall>i. \<exists>r. busy_gateway i = Inr r"
  by (simp add: busy_gateway_def)

lemma busy_run:
  "runAgenticPipeline std_json busy_gateway [login_assertion] =
     Inr \<lparr>timeline = [JObj [(''timestampSeconds'', JNum 0), (''description'', JStr ''Login screen shown'')]],
          evaluations = []\<rparr>"
  by code_simp

lemma busy_turns:
  "(case agentLoop std_json busy_gateway 0 initial_state of
      Inl err \<Rightarrow> False
    | Inr st \<Rightarrow> assistant_turns (messages st) = 10 \<and> calls st = 20)"
  by code_simp

lemma quiet_run:
  "runAgenticPipeline std_json prose_gateway [login_assertion] = Inr \<lparr>timeline = [], evaluations = []\<rparr>"
  by code_simp

lemma agent_conversation:
  "(case agentLoop std_json agent_gateway 0 initial_state of
      Inl err \<Rightarrow> False
    | Inr st \<Rightarrow>
        harvested st = agent_result
        \<and> replay std_json (messages st) \<lparr>timeline = [], evaluations = []\<rparr> = agent_result
        \<and> assistant_turns (messages st) = 3 \<and> calls st = 6)"
  by code_simp

theorem agentLoop_bounded_witness:
  "(\<forall>i. \<exists>r. busy_gateway i = Inr r)
   \<and> (\<exists>res. runAgenticPipeline std_json busy_gateway [login_assertion] = Inr res)
   \<and> runAgenticPipeline std_json busy_gateway [login_assertion] =
       Inr \<lparr>timeline = [JObj [(''timestampSeconds'', JNum 0),
                                (''description'', JStr ''Login screen shown'')]],
            evaluations = []\<rparr>
   \<and> (case agentLoop std_json busy_gateway 0 initial_state of
        Inl err \<Rightarrow> False
      | Inr st \<Rightarrow> assistant_turns (messages st) = 10 \<and> calls st = 20)
   \<and> agentLoop std_json prose_gateway 0 initial_state =
       Inr (initial_state\<lparr>calls := 1,
              messages := [UserPrompt, AssistantMessage (content prose_reply)]\<rparr>)
   \<and> runAgenticPipeline std_json prose_gateway [login_assertion] =
       Inr \<lparr>timeline = [], evaluations = []\<rparr>
   \<and> (\<exists>st. agentLoop std_json agent_gateway 0 initial_state = Inr st
        \<and> assistant_turns (messages st) = 3
        \<and> runAgenticPipeline std_json agent_gateway [login_assertion] = Inr (harvested st)
        \<and> harvested st = replay std_json (messages st) \<lparr>timeline = [], evaluations = []\<rparr>
        \<and> harvested st = agent_result)
   \<and> evaluations agent_result \<noteq> []"
proof -
  obtain st where st: "agentLoop std_json agent_gateway 0 initial_state = Inr st"
    and h: "harvested st = agent_result" and t: "assistant_turns (messages st) = 3"
    using agent_conversation by (auto split: sum.splits)
  note a = agentLoop_bounded [of agent_gateway std_json "[login_assertion]" st]
  note a2 = a [THEN conjunct2, THEN conjunct1, rule_format, OF st]
  have agent: "\<exists>st. agentLoop std_json agent_gateway 0 initial_state = Inr st
        \<and> assistant_turns (messages st) = 3
        \<and> runAgenticPipeline std_json agent_gateway [login_assertion] = Inr (harvested st)
        \<and> harvested st = replay std_json (messages st) \<lparr>timeline = [], evaluations = []\<rparr>
        \<and> harvested st = agent_result"
    using a2 st h t by blast
  have filled: "evaluations agent_result \<noteq> []" by (simp add: agent_result_def)
  note b = agentLoop_bounded [of busy_gateway std_json "[login_assertion]"]
  have busy: "\<exists>res. runAgenticPipeline std_json busy_gateway [login_assertion] = Inr res"
    using b [THEN conjunct1] busy_answers by blast
  note p = agentLoop_bounded [of prose_gateway std_json "[login_assertion]" _ _ _ 0 initial_state prose_reply]
  note p5 = p [THEN conjunct2, THEN conjunct2, THEN conjunct2, THEN conjunct2, THEN conjunct1]
  have hyp: "0 < MAX_AGENT_TURNS \<and> prose_gateway (calls initial_state) = Inr prose_reply
      \<and> stop_reason prose_reply \<noteq> ''tool_use''"
    by (simp add: MAX_AGENT_TURNS_def initial_state_def prose_gateway_def replies_def
        prose_reply_def text_response_def)
  have e: "initial_state\<lparr>calls := Suc (calls initial_state),
               messages := messages initial_state @ [AssistantMessage (content prose_reply)]\<rparr> =
      initial_state\<lparr>calls := 1, messages := [UserPrompt, AssistantMessage (content prose_reply)]\<rparr>"
    by (simp add: initial_state_def)
  have quiet: "agentLoop std_json prose_gateway 0 initial_state =
       Inr (initial_state\<lparr>calls := 1,
              messages := [UserPrompt, AssistantMessage (content prose_reply)]\<rparr>)"
    using p5 hyp unfolding e by blast
  show ?thesis
    using busy_answers busy busy_run busy_turns quiet quiet_run agent filled by blast
qed









section \<open>Result parser\<close>

lemma split_fence_tail: "split_fence (x # s) = None \<Longrightarrow> split_fence s = None"
  by (cases s rule: split_fence.cases) (auto split: if_splits)

lemma split_fence_dropWhile: "split_fence s = None \<Longrightarrow> split_fence (dropWhile P s) = None"
  by (induction s) (auto dest: split_fence_tail)

lemma split_fence_prefix: "split_fence (s @ t) = None \<Longrightarrow> split_fence s = None"
proof (induction s rule: split_fence.induct)
  case (1 a b c rest)
  then show ?case by (auto split: if_splits)
qed auto

lemma trim_prefix: "\<exists>u. dropWhile is_space s = trim s @ u"
proof -
  let ?t = "dropWhile is_space s"
  have "rev ?t = takeWhile is_space (rev ?t) @ dropWhile is_space (rev ?t)" by simp
  then have "?t = rev (dropWhile is_space (rev ?t)) @ rev (takeWhile is_space (rev ?t))"
    by (metis rev_append rev_rev_ident)
  then show ?thesis unfolding trim_def by blast
qed

lemma split_fence_trim: "split_fence s = None \<Longrightarrow> split_fence (trim s) = None"
proof -
  assume "split_fence s = None"
  then have d: "split_fence (dropWhile is_space s) = None" by (rule split_fence_dropWhile)
  obtain u where "dropWhile is_space s = trim s @ u" using trim_prefix by blast
  with d show ?thesis using split_fence_prefix by metis
qed

lemma split_fence_close:
  "split_fence s = None \<Longrightarrow> split_fence (s @ CHR 0x0A # ''```'') = Some (s @ [CHR 0x0A], [])"
proof (induction s rule: split_fence.induct)
  case (1 a b c rest)
  then show ?case by (auto split: if_splits)
qed simp_all

lemma trim_fence_wrap: "trim (fence_wrap tagged s) = fence_wrap tagged s"
  by (simp add: trim_def fence_wrap_def is_space_def)

lemma match_fence_wrap:
  assumes "split_fence s = None"
  shows "map_option trim (match_fence (fence_wrap tagged s)) = Some (trim s)"
proof -
  let ?nl = "CHR 0x0A"
  let ?t = "dropWhile is_space s"
  have open_f: "split_fence (fence_wrap tagged s) =
      Some ([], (if tagged then ''json'' else []) @ ?nl # s @ ?nl # ''```'')"
    by (simp add: fence_wrap_def)
  have post1: "(let post = (if tagged then ''json'' else []) @ ?nl # s @ ?nl # ''```'' in
       if take 4 post = ''json'' then drop 4 post else post) = ?nl # s @ ?nl # ''```''"
    by simp
  have body: "match_fence (fence_wrap tagged s) =
      map_option fst (split_fence (dropWhile is_space (s @ ?nl # ''```'')))"
    unfolding match_fence_def open_f using post1 by (simp add: is_space_def)
  show ?thesis
  proof (cases "?t = []")
    case True
    then have all: "\<forall>x \<in> set s. is_space x" by (simp add: dropWhile_eq_Nil_conv)
    then have "dropWhile is_space (s @ ?nl # ''```'') = dropWhile is_space (?nl # ''```'')"
      by (simp add: dropWhile_append2)
    then have "dropWhile is_space (s @ ?nl # ''```'') = ''```''"
      by (simp add: is_space_def)
    moreover have "trim s = []" unfolding trim_def True by simp
    ultimately show ?thesis using body by (simp add: trim_def)
  next
    case False
    then have nall: "\<not> (\<forall>x \<in> set s. is_space x)" by (simp add: dropWhile_eq_Nil_conv)
    then have d: "dropWhile is_space (s @ ?nl # ''```'') = ?t @ ?nl # ''```''"
      by (auto simp: dropWhile_append)
    have nf: "split_fence ?t = None" using assms by (rule split_fence_dropWhile)
    have m: "match_fence (fence_wrap tagged s) = Some (?t @ [?nl])"
      using body d split_fence_close [OF nf] by simp
    have h: "\<not> is_space (hd ?t)" using False by (rule hd_dropWhile)
    then have "dropWhile is_space (?t @ [?nl]) = ?t @ [?nl]"
      using False by (cases ?t) auto
    then have "trim (?t @ [?nl]) = rev (dropWhile is_space (rev ?t))"
      by (simp add: trim_def is_space_def)
    then show ?thesis using m by (simp add: trim_def)
  qed
qed

lemma strip_fence_wrap:
  assumes "split_fence s = None"
  shows "strip_fence (fence_wrap tagged s) = trim s" and "strip_fence s = trim s"
proof -
  from match_fence_wrap [OF assms, of tagged]
  show "strip_fence (fence_wrap tagged s) = trim s"
    by (auto simp: strip_fence_def trim_fence_wrap)
  have "match_fence (trim s) = None"
    using split_fence_trim [OF assms] by (simp add: match_fence_def)
  then show "strip_fence s = trim s" by (simp add: strip_fence_def)
qed

text \<open>
  C6, as amended. For every text \<open>s\<close> that holds no triple backtick, in particular the
  serialization of an object \<open>v\<close> that holds none, \<^verbatim>\<open>parseJsonFromResponse\<close> gives
  the same on \<open>s\<close> wrapped in a fence (tagged \<^verbatim>\<open>json\<close> or not) as on \<open>s\<close> itself: both
  hand the trimmed \<open>s\<close> to \<^verbatim>\<open>JSON.parse\<close>, so both return \<open>v\<close> when \<^verbatim>\<open>JSON.parse\<close>
  returns \<open>v\<close> on the serialization. For every text, \<^verbatim>\<open>parseJsonFromResponse\<close> fails
  with MalformedOutput when \<^verbatim>\<open>JSON.parse\<close> fails on what is left after fence stripping
  and trimming, and returns the parsed value otherwise: there is no default value. Under
  the reference implementation of the JSON built-ins, the fenced and the bare
  serialization of \<open>v\<close> both parse to \<open>v\<close>, for every \<open>v\<close> with integer numbers and
  one property per name whose serialization holds no triple backtick.
\<close>

theorem fenced_round_trip:
  "(split_fence s = None \<longrightarrow>
      strip_fence (fence_wrap tagged s) = trim s \<and> strip_fence s = trim s
      \<and> parseJsonFromResponse api (fence_wrap tagged s) = parseJsonFromResponse api s)
   \<and> (split_fence (JSON_stringify api v) = None
        \<and> JSON_parse api (trim (JSON_stringify api v)) = Some v \<longrightarrow>
      parseJsonFromResponse api (fence_wrap tagged (JSON_stringify api v)) = Inr v
      \<and> parseJsonFromResponse api (JSON_stringify api v) = Inr v)
   \<and> (JSON_parse api (strip_fence text) = None \<longrightarrow>
        parseJsonFromResponse api text = Inl (MalformedOutput (strip_fence text)))
   \<and> (JSON_parse api (strip_fence text) = Some v \<longrightarrow> parseJsonFromResponse api text = Inr v)
   \<and> (plain_json v \<and> split_fence (std_stringify v) = None \<longrightarrow>
        parseJsonFromResponse std_json (fence_wrap tagged (std_stringify v)) = Inr v
        \<and> parseJsonFromResponse std_json (std_stringify v) = Inr v)"
proof (intro conjI impI)
  assume nf: "split_fence s = None"
  show "strip_fence (fence_wrap tagged s) = trim s" "strip_fence s = trim s"
    using strip_fence_wrap [OF nf] by simp_all
  then show "parseJsonFromResponse api (fence_wrap tagged s) = parseJsonFromResponse api s"
    unfolding parseJsonFromResponse_def by (simp only:)
next
  assume a: "split_fence (JSON_stringify api v) = None
        \<and> JSON_parse api (trim (JSON_stringify api v)) = Some v"
  then show "parseJsonFromResponse api (fence_wrap tagged (JSON_stringify api v)) = Inr v"
    using strip_fence_wrap(1) [of "JSON_stringify api v" tagged]
    by (simp add: parseJsonFromResponse_def)
  from a show "parseJsonFromResponse api (JSON_stringify api v) = Inr v"
    using strip_fence_wrap(2) [of "JSON_stringify api v"]
    by (simp add: parseJsonFromResponse_def)
next
  assume "JSON_parse api (strip_fence text) = None"
  then show "parseJsonFromResponse api text = Inl (MalformedOutput (strip_fence text))"
    by (simp add: parseJsonFromResponse_def)
next
  assume "JSON_parse api (strip_fence text) = Some v"
  then show "parseJsonFromResponse api text = Inr v"
    by (simp add: parseJsonFromResponse_def)
next
  assume a: "plain_json v \<and> split_fence (std_stringify v) = None"
  have p: "std_parse (trim (std_stringify v)) = Some v"
    using a by (simp add: trim_stringify std_parse_stringify)
  show "parseJsonFromResponse std_json (fence_wrap tagged (std_stringify v)) = Inr v"
    using a p strip_fence_wrap(1) [of "std_stringify v" tagged]
    by (simp add: parseJsonFromResponse_def std_json_def)
  show "parseJsonFromResponse std_json (std_stringify v) = Inr v"
    using a p strip_fence_wrap(2) [of "std_stringify v"]
    by (simp add: parseJsonFromResponse_def std_json_def)
qed

lemma a1_pass_text:
  "split_fence (JSON_stringify std_json a1_pass) = None
   \<and> JSON_parse std_json (trim (JSON_stringify std_json a1_pass)) = Some a1_pass
   \<and> plain_json a1_pass \<and> split_fence (std_stringify a1_pass) = None"
  by code_simp

lemma prose_text: "JSON_parse std_json ''The video shows a login screen.'' = None"
  by code_simp

lemma prose_text_stripped:
  "strip_fence ''The video shows a login screen.'' = ''The video shows a login screen.''"
  by code_simp

theorem fenced_round_trip_witness:
  "split_fence (JSON_stringify std_json a1_pass) = None
   \<and> JSON_parse std_json (trim (JSON_stringify std_json a1_pass)) = Some a1_pass
   \<and> plain_json a1_pass \<and> split_fence (std_stringify a1_pass) = None
   \<and> parseJsonFromResponse std_json (fence_wrap True (std_stringify a1_pass)) = Inr a1_pass
   \<and> parseJsonFromResponse std_json (std_stringify a1_pass) = Inr a1_pass
   \<and> parseJsonFromResponse std_json (fence_wrap True (JSON_stringify std_json a1_pass)) = Inr a1_pass
   \<and> parseJsonFromResponse std_json (fence_wrap False (JSON_stringify std_json a1_pass)) = Inr a1_pass
   \<and> parseJsonFromResponse std_json (JSON_stringify std_json a1_pass) = Inr a1_pass
   \<and> JSON_parse std_json (strip_fence ''The video shows a login screen.'') = None
   \<and> strip_fence ''The video shows a login screen.'' = ''The video shows a login screen.''
   \<and> parseJsonFromResponse std_json ''The video shows a login screen.'' =
       Inl (MalformedOutput ''The video shows a login screen.'')"
  using fenced_round_trip [of "JSON_stringify std_json a1_pass" True std_json a1_pass
      "''The video shows a login screen.''"]
    fenced_round_trip [of "JSON_stringify std_json a1_pass" False std_json a1_pass
      "''The video shows a login screen.''"]
    a1_pass_text prose_text prose_text_stripped
  by simp

text \<open>
  The claim C6 as stated fails on an object whose serialization holds triple backticks:
  the bare serialization parses to the number 1, and the fenced one does not parse.
\<close>

theorem backtick_round_trip_counterexample:
  "JSON_parse std_json (JSON_stringify std_json backtick_object) = Some backtick_object
   \<and> parseJsonFromResponse std_json (JSON_stringify std_json backtick_object) = Inr (JNum 1)
   \<and> parseJsonFromResponse std_json (fence_wrap True (JSON_stringify std_json backtick_object)) =
       Inl (MalformedOutput (''{'' @ [CHR 0x22] @ ''a'' @ [CHR 0x22] @ '':'' @ [CHR 0x22]))"
  by code_simp

section \<open>Frame sampler\<close>

text \<open>
  The rounded products \<open>r i\<close> of the loop, for a rounding of relative error at most \<open>u\<close>:
  they start at 0, grow by at least 1 per turn, stay below the last index before the
  last turn and reach it there.
\<close>

lemma rounding_steps:
  fixes fl :: "rat \<Rightarrow> rat" and u :: rat
  assumes err: "\<And>x. \<bar>fl x - x\<bar> \<le> u * \<bar>x\<bar>"
    and smallM: "2 * u * of_nat M * of_nat (M - 1) \<le> 1"
    and smallN: "6 * u * of_nat (N - 1) \<le> 1"
    and M2: "2 \<le> M" and MN: "M < N"
  defines "s \<equiv> fl (of_nat (N - 1) / of_nat (M - 1))"
  defines "r \<equiv> \<lambda>i. js_round (fl (of_nat i * s))"
  shows "r 0 = 0"
    and "\<And>i. Suc i < M \<Longrightarrow> r i + 1 \<le> r (Suc i)"
    and "r (M - 2) \<le> int N - 2"
    and "int N - 1 \<le> r (M - 1)"
proof -
  define a :: rat where "a = of_nat (M - 1)"
  define b :: rat where "b = of_nat (N - 1)"
  define q where "q = b / a"
  have a1: "1 \<le> a"
  proof -
    have "1 \<le> M - 1" using M2 by simp
    then have "(of_nat 1 :: rat) \<le> of_nat (M - 1)" by (simp only: of_nat_le_iff)
    then show ?thesis by (simp add: a_def)
  qed
  have Ma: "(of_nat M :: rat) = a + 1"
    using M2 by (simp add: a_def of_nat_diff)
  have ba: "a + 1 \<le> b"
  proof -
    have "M \<le> N - 1" using MN by simp
    then have "(of_nat M :: rat) \<le> of_nat (N - 1)" by (simp only: of_nat_le_iff)
    then show ?thesis using Ma by (simp add: b_def)
  qed
  have u0: "0 \<le> u" using err [of 1] by simp
  have sm: "2 * u * (a + 1) * a \<le> 1" using smallM by (simp only: Ma a_def [symmetric])
  have sn: "6 * u * b \<le> 1" using smallN by (simp add: b_def)
  have ua: "0 \<le> u * a" using u0 a1 by simp
  have uaa: "u * a \<le> u * a * a" using mult_left_mono [OF a1 ua] by (simp add: mult.commute)
  have sm': "2 * (u * a * a) + 2 * (u * a) \<le> 1" using sm by (simp add: algebra_simps)
  have ua4: "4 * (u * a) \<le> 1" using sm' uaa by linarith
  have u4: "4 * u \<le> 1"
  proof -
    have "u * 1 \<le> u * a" using a1 u0 by (rule mult_left_mono)
    then show ?thesis using ua4 by simp
  qed
  have a0: "0 < a" using a1 by simp
  have qa: "q * a = b" using a0 by (simp add: q_def)
  have ub: "0 \<le> u * b" using u0 ba a1 by simp
  have q1: "1 < q"
  proof -
    have "a < b" using ba by simp
    then show ?thesis using a0 by (simp add: q_def)
  qed
  have uq: "0 \<le> u * q" using u0 q1 by simp
  have flb: "y - u * y \<le> fl y \<and> fl y \<le> y + u * y" if "0 \<le> y" for y
    using err [of y] that by (simp add: abs_le_iff)
  have s_lo: "q - u * q \<le> s" and s_hi: "s \<le> q + u * q"
    using flb [of q] q1 by (simp_all add: s_def q_def b_def a_def)
  have uq_q: "u * q \<le> q" using mult_right_mono [of u 1 q] u4 q1 by simp
  have s0: "0 \<le> s" using s_lo uq_q by simp
  have us: "0 \<le> u * s" using u0 s0 by simp
  have x_lo: "of_nat i * s - u * (of_nat i * s) \<le> fl (of_nat i * s)"
    and x_hi: "fl (of_nat i * s) \<le> of_nat i * s + u * (of_nat i * s)" for i
    using flb [of "of_nat i * s"] s0 by simp_all
  have fl0: "fl 0 = 0" using err [of 0] by simp
  have half: "\<lfloor>(1::rat) / 2\<rfloor> = 0" by (simp add: floor_eq_iff)
  show "r 0 = 0" by (simp add: r_def js_round_def fl0 half)
  have one_a: "1 \<le> q - 2 * (u * b)"
  proof -
    have "a * 1 \<le> a * (q - 2 * (u * b))"
    proof -
      have "a * (q - 2 * (u * b)) = b - 2 * (u * a) * b" using qa by (simp add: algebra_simps)
      moreover have "a \<le> b - 2 * (u * a) * b"
      proof -
        have c0: "0 \<le> 1 - 2 * (u * a)" using ua4 ua by linarith
        have "(a + 1) * (1 - 2 * (u * a)) \<le> b * (1 - 2 * (u * a))"
          using ba c0 by (rule mult_right_mono)
        moreover have "(a + 1) * (1 - 2 * (u * a)) = a + (1 - 2 * (u * a * a) - 2 * (u * a))"
          by (simp add: algebra_simps)
        ultimately have "a + (1 - 2 * (u * a * a) - 2 * (u * a)) \<le> b - 2 * (u * a) * b"
          by (simp add: algebra_simps)
        then show ?thesis using sm' by linarith
      qed
      ultimately show ?thesis by simp
    qed
    then show ?thesis using a0 by (simp only: mult_le_cancel_left_pos)
  qed
  show "r i + 1 \<le> r (Suc i)" if "Suc i < M" for i
  proof -
    define I :: rat where "I = of_nat i"
    have I0: "0 \<le> I" by (simp add: I_def)
    have Ia: "I + 1 \<le> a"
    proof -
      have "Suc i \<le> M - 1" using that by simp
      then have "(of_nat (Suc i) :: rat) \<le> of_nat (M - 1)" by (simp only: of_nat_le_iff)
      then show ?thesis by (simp add: I_def a_def)
    qed
    let ?x0 = "fl (of_nat i * s)" and ?x1 = "fl (of_nat (Suc i) * s)"
    have e: "(of_nat (Suc i) :: rat) = I + 1" by (simp add: I_def)
    have lo1: "(I + 1) * s - u * ((I + 1) * s) \<le> ?x1" using x_lo [of "Suc i"] unfolding e .
    have hi0: "?x0 \<le> I * s + u * (I * s)" using x_hi [of i] unfolding I_def .
    have d1: "s - (u * s) * (2 * I + 1) \<le> ?x1 - ?x0"
    proof -
      have "(I + 1) * s - u * ((I + 1) * s) - (I * s + u * (I * s)) = s - (u * s) * (2 * I + 1)"
        by (simp add: algebra_simps)
      then show ?thesis using lo1 hi0 by linarith
    qed
    have d2: "(u * s) * (2 * I + 1) \<le> (u * s) * (2 * a - 1)"
      using us Ia by (intro mult_left_mono) simp_all
    have d3: "1 \<le> s - (u * s) * (2 * a - 1)"
    proof -
      define c where "c = 1 - u * (2 * a - 1)"
      have c0: "0 \<le> c" using ua4 u0 by (simp add: c_def algebra_simps)
      have e: "s - (u * s) * (2 * a - 1) = s * c" by (simp add: c_def algebra_simps)
      have "(q - u * q) * c \<le> s * c" using s_lo c0 by (rule mult_right_mono)
      moreover have "q * (1 - 2 * (u * a)) \<le> (q - u * q) * c"
      proof -
        have e1: "(q - u * q) * c = q * ((1 - u) * c)" by (simp add: algebra_simps)
        have e2: "1 - 2 * (u * a) \<le> (1 - u) * c"
        proof -
          have "(1 - u) * c - (1 - 2 * (u * a)) = (u * u) * (2 * a - 1)"
            by (simp add: c_def algebra_simps)
          moreover have "0 \<le> (u * u) * (2 * a - 1)" using u0 a1 by simp
          ultimately show ?thesis by linarith
        qed
        have q0: "0 \<le> q" using q1 by simp
        show ?thesis unfolding e1 using e2 q0 by (rule mult_left_mono)
      qed
      moreover have "q * (1 - 2 * (u * a)) = q - 2 * (u * b)" using qa by (simp add: algebra_simps)
      ultimately show ?thesis using one_a e by linarith
    qed
    have "?x0 + 1 \<le> ?x1" using d1 d2 d3 by linarith
    then have "(?x0 + 1 / 2) + of_int 1 \<le> ?x1 + 1 / 2" by simp
    then have m: "\<lfloor>(?x0 + 1 / 2) + of_int 1\<rfloor> \<le> \<lfloor>?x1 + 1 / 2\<rfloor>" by (rule floor_mono)
    have f: "\<lfloor>(?x0 + 1 / 2) + of_int 1\<rfloor> = \<lfloor>?x0 + 1 / 2\<rfloor> + 1"
      by (rule floor_add_int [symmetric])
    show ?thesis unfolding r_def js_round_def using m f by linarith
  qed
  show "r (M - 2) \<le> int N - 2"
  proof -
    have I: "(of_nat (M - 2) :: rat) = a - 1"
      using M2 by (simp add: a_def of_nat_diff)
    let ?x = "fl (of_nat (M - 2) * s)"
    have hi: "?x \<le> (a - 1) * s + u * ((a - 1) * s)" using x_hi [of "M - 2"] by (simp add: I)
    have a10: "0 \<le> a - 1" using a1 by simp
    have y: "(a - 1) * s \<le> (a - 1) * (q + u * q)" using s_hi a10 by (rule mult_left_mono)
    have y0: "0 \<le> (a - 1) * s" using a10 s0 by simp
    have z: "(a - 1) * (q + u * q) = (b - q) + u * (b - q)" using qa by (simp add: algebra_simps)
    define t where "t = b - q"
    have t0: "0 \<le> t"
    proof -
      have "q * 1 \<le> q * a" using a1 q1 by (intro mult_left_mono) simp_all
      then show ?thesis using qa by (simp add: t_def)
    qed
    have tb: "t \<le> b" using q1 by (simp add: t_def)
    have ut: "u * t \<le> u * b" using tb u0 by (rule mult_left_mono)
    have ut0: "0 \<le> u * t" using u0 t0 by simp
    have y': "(a - 1) * s \<le> t + u * t" using y z by (simp add: t_def)
    have uy: "u * ((a - 1) * s) \<le> u * (t + u * t)" using y' u0 by (rule mult_left_mono)
    have "u * (u * t) \<le> 1 * (u * t)" using ut0 u4 by (intro mult_right_mono) simp_all
    then have uut: "u * (u * t) \<le> u * t" by simp
    have "?x \<le> t + u * t + u * (t + u * t)" using hi y' uy by linarith
    also have "\<dots> = t + 2 * (u * t) + u * (u * t)" by (simp add: algebra_simps)
    also have "\<dots> \<le> t + 3 * (u * t)" using uut by linarith
    also have "\<dots> \<le> t + 3 * (u * b)" using ut by linarith
    also have "\<dots> \<le> t + 1 / 2" using sn by linarith
    finally have "?x + 1 / 2 < b" using q1 unfolding t_def by linarith
    then have "?x + 1 / 2 < of_int (int (N - 1))" by (simp add: b_def)
    then have "\<lfloor>?x + 1 / 2\<rfloor> < int (N - 1)" by (simp only: floor_less_iff)
    then show ?thesis using MN by (simp add: r_def js_round_def)
  qed
  show "int N - 1 \<le> r (M - 1)"
  proof -
    let ?x = "fl (of_nat (M - 1) * s)"
    have lo: "a * s - u * (a * s) \<le> ?x" using x_lo [of "M - 1"] by (simp add: a_def)
    have y: "a * (q - u * q) \<le> a * s" using s_lo a0 by (intro mult_left_mono) simp_all
    have e2: "a * (q - u * q) = q * a - u * (q * a)" by (simp add: algebra_simps)
    have y2: "b - u * b \<le> a * s" using y unfolding e2 qa .
    have as_hi: "a * s \<le> a * (q + u * q)" using s_hi a0 by (intro mult_left_mono) simp_all
    have e3: "a * (q + u * q) = q * a + u * (q * a)" by (simp add: algebra_simps)
    have y3: "a * s \<le> b + u * b" using as_hi unfolding e3 qa .
    have uas: "u * (a * s) \<le> u * (b + u * b)" using y3 u0 by (rule mult_left_mono)
    have "u * (u * b) \<le> 1 * (u * b)" using ub u4 by (intro mult_right_mono) simp_all
    then have uub: "u * (u * b) \<le> u * b" by simp
    have "u * (b + u * b) = u * b + u * (u * b)" by (simp add: algebra_simps)
    then have "u * (a * s) \<le> 2 * (u * b)" using uas uub by linarith
    then have "b - 3 * (u * b) \<le> ?x" using lo y2 by linarith
    then have "b \<le> ?x + 1 / 2" using sn by linarith
    then have "of_int (int (N - 1)) \<le> ?x + 1 / 2" by (simp add: b_def)
    then have "int (N - 1) \<le> \<lfloor>?x + 1 / 2\<rfloor>" by (simp only: le_floor_iff)
    then show ?thesis using MN by (simp add: r_def js_round_def)
  qed
qed

lemma steps_mono:
  fixes r :: "nat \<Rightarrow> int"
  assumes "\<And>i. Suc i < M \<Longrightarrow> r i + 1 \<le> r (Suc i)"
  shows "i \<le> j \<Longrightarrow> j < M \<Longrightarrow> r i + int (j - i) \<le> r j"
proof (induction j)
  case 0
  then show ?case by simp
next
  case (Suc j)
  show ?case
  proof (cases "i = Suc j")
    case True
    then show ?thesis by simp
  next
    case False
    then have ij: "i \<le> j" using Suc.prems by simp
    have "r i + int (j - i) \<le> r j" using Suc.IH ij Suc.prems by simp
    moreover have "r j + 1 \<le> r (Suc j)" using assms Suc.prems by simp
    moreover have "int (Suc j - i) = int (j - i) + 1" using ij by (simp add: Suc_diff_le)
    ultimately show ?thesis by linarith
  qed
qed

lemma sample_index_facts:
  fixes fl :: "rat \<Rightarrow> rat" and u :: rat
  assumes err: "\<And>x. \<bar>fl x - x\<bar> \<le> u * \<bar>x\<bar>"
    and smallM: "2 * u * of_nat M * of_nat (M - 1) \<le> 1"
    and smallN: "6 * u * of_nat (N - 1) \<le> 1"
    and M2: "2 \<le> M" and MN: "M < N"
  shows "sample_index fl N M 0 = 0"
    and "sample_index fl N M (M - 1) = int N - 1"
    and "\<And>i j. i < j \<Longrightarrow> j < M \<Longrightarrow> sample_index fl N M i < sample_index fl N M j"
    and "\<And>i. i < M \<Longrightarrow> 0 \<le> sample_index fl N M i \<and> sample_index fl N M i < int N"
proof -
  define r where "r = (\<lambda>i. js_round (fl (of_nat i * fl (of_nat (N - 1) / of_nat (M - 1)))))"
  have idx: "sample_index fl N M i = min (r i) (int N - 1)" for i
    by (simp add: sample_index_def r_def Let_def)
  note k = rounding_steps [OF err smallM smallN M2 MN]
  have k1: "r 0 = 0" unfolding r_def using k(1) .
  have k2: "Suc i < M \<Longrightarrow> r i + 1 \<le> r (Suc i)" for i unfolding r_def using k(2) .
  have k3: "r (M - 2) \<le> int N - 2" unfolding r_def using k(3) .
  have k4: "int N - 1 \<le> r (M - 1)" unfolding r_def using k(4) .
  have mono: "i \<le> j \<Longrightarrow> j < M \<Longrightarrow> r i + int (j - i) \<le> r j" for i j
    using steps_mono [of M r i j] k2 by blast
  have low: "r i \<le> int N - 2" if "i + 2 \<le> M" for i
  proof -
    have "r i + int (M - 2 - i) \<le> r (M - 2)" using mono [of i "M - 2"] that M2 by simp
    then show ?thesis using k3 by linarith
  qed
  have nonneg: "0 \<le> r i" if "i < M" for i
    using mono [of 0 i] that k1 by simp
  show "sample_index fl N M 0 = 0" using k1 MN by (simp add: idx)
  show "sample_index fl N M (M - 1) = int N - 1" using k4 by (simp add: idx)
  show "sample_index fl N M i < sample_index fl N M j" if "i < j" "j < M" for i j
  proof -
    have li: "r i \<le> int N - 2" using low [of i] that by simp
    have "r i + int (j - i) \<le> r j" using mono [of i j] that by simp
    then have "r i + 1 \<le> r j" using that by simp
    then show ?thesis using li by (simp add: idx)
  qed
  show "0 \<le> sample_index fl N M i \<and> sample_index fl N M i < int N" if "i < M" for i
    using nonneg [OF that] MN by (simp add: idx)
qed

lemma length_sample_indices: "length (sample_indices fl n m) = m"
  by (simp add: sample_indices_def)

lemma sampleFramesEvenly_short: "length (sampleFramesEvenly fl frames m) \<le> m"
  by (simp add: sampleFramesEvenly_def length_sample_indices)

text \<open>The rounding to the nearest double errs by at most \<open>1 / 2 ^ 53\<close> of the number.\<close>

declare bit_length.simps [simp del]

lemma bit_length_pos: "0 < n \<Longrightarrow> 0 < bit_length n"
  by (simp add: bit_length.simps [of n])

lemma bit_length_bounds: "0 < n \<Longrightarrow> 2 ^ (bit_length n - 1) \<le> n \<and> n < 2 ^ bit_length n"
proof (induction n rule: bit_length.induct)
  case (1 n)
  show ?case
  proof (cases "n = 1")
    case True
    have "bit_length 1 = 1" by (simp add: bit_length.simps [of 1] bit_length.simps [of 0])
    then show ?thesis using True by simp
  next
    case False
    then have h: "0 < n div 2" using "1.prems" by simp
    define b where "b = bit_length (n div 2)"
    have ih: "2 ^ (b - 1) \<le> n div 2 \<and> n div 2 < 2 ^ b"
      using "1.IH" h "1.prems" by (simp add: b_def)
    have b0: "0 < b" using bit_length_pos [OF h] by (simp add: b_def)
    then have pb: "(2::int) ^ b = 2 * 2 ^ (b - 1)" by (cases b) simp_all
    have bl: "bit_length n = Suc b" using "1.prems" by (simp add: bit_length.simps [of n] b_def)
    have lo: "(2::int) ^ b \<le> n" using ih pb by linarith
    have hi: "n < 2 * 2 ^ b" using ih by linarith
    show ?thesis using lo hi by (simp add: bl)
  qed
qed

lemma pow2_pos: "0 < pow2 e"
  by (simp add: pow2_def)

lemma pow2_powi: "pow2 e = 2 powi e"
proof (cases "0 \<le> e")
  case True
  then show ?thesis by (simp add: pow2_def power_int_def)
next
  case False
  then show ?thesis by (simp add: pow2_def power_int_def power_one_over inverse_eq_divide)
qed

lemma pow2_diff_nat: "pow2 (int a - int b) = 2 ^ a / 2 ^ b"
proof -
  have "(2::rat) powi (int a - int b) = 2 powi int a / 2 powi int b"
    by (rule power_int_diff) simp
  then show ?thesis by (simp add: pow2_powi)
qed

lemma pow2_minus: "pow2 (e - int k) = pow2 e / 2 ^ k"
proof -
  have "(2::rat) powi (e - int k) = 2 powi e / 2 powi int k"
    by (rule power_int_diff) simp
  then show ?thesis by (simp add: pow2_powi)
qed

lemma round_even_error: "\<bar>of_int (round_even z) - z\<bar> \<le> 1 / 2"
proof -
  define f where "f = \<lfloor>z\<rfloor>"
  define d where "d = z - of_int f"
  have d0: "0 \<le> d" and d1: "d < 1" unfolding d_def f_def by linarith+
  have z: "z = of_int f + d" by (simp add: d_def)
  have r: "round_even z = (if d < 1 / 2 then f else if 1 / 2 < d then f + 1
      else if even f then f else f + 1)"
    by (simp add: round_even_def Let_def f_def d_def)
  show ?thesis
  proof (cases "d < 1 / 2")
    case True
    then have "round_even z = f" by (simp add: r)
    then have "of_int (round_even z) - z = - d" by (simp add: z)
    then show ?thesis using d0 True by simp
  next
    case False
    note nlt = this
    show ?thesis
    proof (cases "1 / 2 < d")
      case True
      then have "round_even z = f + 1" using nlt by (simp add: r)
      then have "of_int (round_even z) - z = 1 - d" by (simp add: z)
      then show ?thesis using d1 True by simp
    next
      case False
      then have h: "d = 1 / 2" using nlt by simp
      have "round_even z = f \<or> round_even z = f + 1" using nlt False by (simp add: r)
      then have "of_int (round_even z) - z = - d \<or> of_int (round_even z) - z = 1 - d"
        by (auto simp: z)
      then show ?thesis using h by auto
    qed
  qed
qed

lemma binary_exponent_le:
  assumes "0 < x"
  shows "pow2 (binary_exponent x) \<le> x"
proof -
  obtain p q where pq: "quotient_of x = (p, q)" by (cases "quotient_of x")
  have q0: "0 < q" using quotient_of_denom_pos [OF pq] .
  have x: "x = of_int p / of_int q" using quotient_of_div [OF pq] .
  have p0: "0 < p" using assms q0 x by (simp add: zero_less_divide_iff)
  define bp where "bp = bit_length p"
  define bq where "bq = bit_length q"
  define e where "e = int bp - int bq"
  have be: "binary_exponent x = (if pow2 e \<le> x then e else e - 1)"
    by (simp add: binary_exponent_def pq Let_def e_def bp_def bq_def)
  show ?thesis
  proof (cases "pow2 e \<le> x")
    case True
    then show ?thesis by (simp add: be)
  next
    case False
    have bp0: "0 < bp" using bit_length_pos [OF p0] by (simp add: bp_def)
    have lo: "(2::int) ^ (bp - 1) \<le> p" using bit_length_bounds [OF p0] by (simp add: bp_def)
    have hi: "q < 2 ^ bq" using bit_length_bounds [OF q0] by (simp add: bq_def)
    have lo': "(2::rat) ^ (bp - 1) \<le> of_int p"
    proof -
      have "(of_int (2 ^ (bp - 1)) :: rat) \<le> of_int p" using lo by (simp only: of_int_le_iff)
      then show ?thesis by simp
    qed
    have hi': "(of_int q :: rat) \<le> 2 ^ bq"
    proof -
      have "q \<le> 2 ^ bq" using hi by simp
      then have "(of_int q :: rat) \<le> of_int (2 ^ bq)" by (simp only: of_int_le_iff)
      then show ?thesis by simp
    qed
    have e1: "e - 1 = int (bp - 1) - int bq" using bp0 by (simp add: e_def)
    have "pow2 (e - 1) = 2 ^ (bp - 1) / 2 ^ bq" unfolding e1 by (rule pow2_diff_nat)
    also have "\<dots> \<le> of_int p / of_int q"
    proof (rule frac_le)
      show "(0::rat) \<le> of_int p" using p0 by simp
      show "(2::rat) ^ (bp - 1) \<le> of_int p" by (rule lo')
      show "(0::rat) < of_int q" using q0 by simp
      show "(of_int q :: rat) \<le> 2 ^ bq" by (rule hi')
    qed
    finally have "pow2 (e - 1) \<le> x" unfolding x .
    moreover have "binary_exponent x = e - 1" using False by (simp only: be if_False)
    ultimately show ?thesis by simp
  qed
qed

lemma to_double_error: "\<bar>to_double x - x\<bar> \<le> (1 / 2 ^ 53) * \<bar>x\<bar>"
proof (cases "x = 0")
  case True
  then show ?thesis by (simp add: to_double_def)
next
  case False
  define e where "e = binary_exponent \<bar>x\<bar>"
  define s where "s = pow2 (e - 52)"
  have s0: "0 < s" by (simp add: s_def pow2_pos)
  have t: "to_double x = s * of_int (round_even (x / s))"
    using False by (simp add: to_double_def Let_def s_def e_def)
  have ex: "pow2 e \<le> \<bar>x\<bar>" unfolding e_def using False by (intro binary_exponent_le) simp
  have se: "s = pow2 e / 2 ^ 52" unfolding s_def using pow2_minus [of e 52] by simp
  have "to_double x - x = s * (of_int (round_even (x / s)) - x / s)"
    using s0 by (simp add: t algebra_simps)
  then have "\<bar>to_double x - x\<bar> = s * \<bar>of_int (round_even (x / s)) - x / s\<bar>"
    using s0 by (simp add: abs_mult)
  also have "\<dots> \<le> s * (1 / 2)"
    using round_even_error [of "x / s"] s0 by (intro mult_left_mono) simp_all
  also have "\<dots> = pow2 e / 2 ^ 53" by (simp add: se)
  also have "\<dots> \<le> \<bar>x\<bar> / 2 ^ 53" using ex by (simp add: divide_right_mono)
  finally show ?thesis by simp
qed

text \<open>
  The index of a sample against the exact rounding \<open>round (i \<times> (N - 1) / (M - 1))\<close>. The
  exact position is a multiple of \<open>1 / (M - 1)\<close>, so unless it lies half-way between two
  integers it is at least \<open>1 / (2 (M - 1))\<close> away from every half-way point, more than the
  rounded product is away from it.
\<close>

lemma sample_index_exact:
  fixes fl :: "rat \<Rightarrow> rat" and u :: rat
  assumes err: "\<And>x. \<bar>fl x - x\<bar> \<le> u * \<bar>x\<bar>"
    and small: "6 * u * of_nat (N - 1) * of_nat (M - 1) < 1"
    and M2: "2 \<le> M" and MN: "M < N" and iM: "i < M"
  defines "y \<equiv> of_nat i * of_nat (N - 1) / of_nat (M - 1)"
  shows "frac y \<noteq> 1 / 2 \<Longrightarrow> sample_index fl N M i = js_round y"
    and "frac y = 1 / 2 \<Longrightarrow>
      sample_index fl N M i = js_round y \<or> sample_index fl N M i = js_round y - 1"
proof -
  define a :: rat where "a = of_nat (M - 1)"
  define b :: rat where "b = of_nat (N - 1)"
  define I :: rat where "I = of_nat i"
  define q where "q = b / a"
  define s where "s = fl q"
  define x where "x = fl (I * s)"
  define z where "z = y + 1 / 2"
  define n where "n = \<lfloor>z\<rfloor>"
  define d where "d = 3 * (u * b)"
  define A where "A = 2 * a"
  have idx: "sample_index fl N M i = min \<lfloor>x + 1 / 2\<rfloor> (int N - 1)"
    by (simp add: sample_index_def js_round_def Let_def x_def s_def q_def I_def a_def b_def)
  have jr: "js_round y = n" by (simp add: js_round_def n_def z_def)
  have a1: "1 \<le> a"
  proof -
    have "1 \<le> M - 1" using M2 by simp
    then have "(of_nat 1 :: rat) \<le> of_nat (M - 1)" by (simp only: of_nat_le_iff)
    then show ?thesis by (simp add: a_def)
  qed
  have a0: "0 < a" using a1 by simp
  have ab: "a + 1 \<le> b"
  proof -
    have "Suc (M - 1) \<le> N - 1" using MN M2 by simp
    then have "(of_nat (Suc (M - 1)) :: rat) \<le> of_nat (N - 1)" by (simp only: of_nat_le_iff)
    then show ?thesis by (simp add: a_def b_def)
  qed
  have b0: "0 < b" using ab a1 by simp
  have I0: "0 \<le> I" by (simp add: I_def)
  have Ia: "I \<le> a"
  proof -
    have "i \<le> M - 1" using iM by simp
    then have "(of_nat i :: rat) \<le> of_nat (M - 1)" by (simp only: of_nat_le_iff)
    then show ?thesis by (simp add: I_def a_def)
  qed
  have u0: "0 \<le> u" using err [of 1] by simp
  have q0: "0 < q" using a0 b0 by (simp add: q_def)
  have qa: "q * a = b" using a0 by (simp add: q_def)
  have yq: "y = I * q" by (simp add: y_def I_def q_def a_def b_def)
  have y0: "0 \<le> y" using I0 q0 by (simp add: yq)
  have yb: "y \<le> b"
  proof -
    have "I * q \<le> a * q" using Ia q0 by (intro mult_right_mono) simp_all
    then show ?thesis using qa by (simp add: yq mult.commute)
  qed
  have uba: "0 \<le> u * b * a" using u0 b0 a0 by simp
  have sm: "6 * (u * b * a) < 1" using small by (simp add: a_def b_def mult.assoc)
  have ub_le: "u * b \<le> u * b * a"
  proof -
    have "u * b * 1 \<le> u * b * a" using a1 u0 b0 by (intro mult_left_mono) simp_all
    then show ?thesis by simp
  qed
  have u_le: "2 * u \<le> u * b"
  proof -
    have "2 \<le> b" using ab a1 by linarith
    then have "u * 2 \<le> u * b" using u0 by (rule mult_left_mono)
    then show ?thesis by (simp add: mult.commute)
  qed
  have u1: "u \<le> 1" using sm ub_le u_le u0 by linarith
  have flb: "t - u * t \<le> fl t \<and> fl t \<le> t + u * t" if "0 \<le> t" for t
    using err [of t] that by (simp add: abs_le_iff)
  have s_lo: "q - u * q \<le> s" and s_hi: "s \<le> q + u * q"
    using flb [of q] q0 by (simp_all add: s_def)
  have uq: "u * q \<le> q"
  proof -
    have "u * q \<le> 1 * q" using u1 q0 by (intro mult_right_mono) simp_all
    then show ?thesis by simp
  qed
  have s0: "0 \<le> s" using s_lo uq by linarith
  have Is0: "0 \<le> I * s" using I0 s0 by simp
  have Is_hi: "I * s \<le> y + u * y"
  proof -
    have "I * s \<le> I * (q + u * q)" using s_hi I0 by (rule mult_left_mono)
    then show ?thesis by (simp add: yq algebra_simps)
  qed
  have Is_lo: "y - u * y \<le> I * s"
  proof -
    have "I * (q - u * q) \<le> I * s" using s_lo I0 by (rule mult_left_mono)
    then show ?thesis by (simp add: yq algebra_simps)
  qed
  have x_lo: "I * s - u * (I * s) \<le> x" and x_hi: "x \<le> I * s + u * (I * s)"
    using flb [OF Is0] by (simp_all add: x_def)
  have uy0: "0 \<le> u * y" using u0 y0 by simp
  have uIs: "u * (I * s) \<le> u * y + u * (u * y)"
  proof -
    have "u * (I * s) \<le> u * (y + u * y)" using Is_hi u0 by (rule mult_left_mono)
    then show ?thesis by (simp add: algebra_simps)
  qed
  have uuy: "u * (u * y) \<le> u * y"
  proof -
    have "u * (u * y) \<le> 1 * (u * y)" using u1 uy0 by (intro mult_right_mono) simp_all
    then show ?thesis by simp
  qed
  have uyb: "u * y \<le> u * b" using yb u0 by (rule mult_left_mono)
  have near_hi: "x \<le> y + d" using x_hi Is_hi uIs uuy uyb by (simp add: d_def)
  have near_lo: "y - d \<le> x" using x_lo Is_lo uIs uuy uyb by (simp add: d_def)
  have d0: "0 \<le> d" using u0 b0 by (simp add: d_def)
  have Ad: "A * d < 1" using sm by (simp add: A_def d_def algebra_simps)
  have A0: "0 < A" using a0 by (simp add: A_def)
  have A2: "2 \<le> A" using a1 by (simp add: A_def)
  have d_half: "2 * d < 1"
  proof -
    have "2 * d \<le> A * d" using A2 d0 by (rule mult_right_mono)
    then show ?thesis using Ad by linarith
  qed
  have nz: "of_int n \<le> z" and zn: "z < of_int n + 1" unfolding n_def by linarith+
  have n_top: "n \<le> int N - 1"
  proof -
    have "z < of_int (int N)"
    proof -
      have "b + 1 = of_int (int N)" using MN by (simp add: b_def of_nat_diff)
      then show ?thesis using yb by (simp add: z_def)
    qed
    then have "\<lfloor>z\<rfloor> < int N" by (simp only: floor_less_iff)
    then show ?thesis by (simp add: n_def)
  qed
  define Y :: int where "Y = 2 * int i * int (N - 1) + int (M - 1)"
  define D :: int where "D = 2 * int (M - 1)"
  have DA: "of_int D = A" by (simp add: D_def A_def a_def)
  have ya: "y * a = I * b" using qa by (simp add: yq mult.assoc)
  have Az: "A * z = of_int Y"
  proof -
    have "A * z = 2 * (y * a) + a" by (simp add: A_def z_def algebra_simps)
    also have "\<dots> = 2 * (I * b) + a" by (simp only: ya)
    also have "\<dots> = of_int Y" by (simp add: Y_def I_def b_def a_def)
    finally show ?thesis .
  qed
  have An: "A * of_int k = of_int (D * k)" for k by (simp add: DA [symmetric])
  have An1: "A * (of_int n + 1) = of_int (D * (n + 1))" by (simp add: DA [symmetric])
  have An2: "A * of_int n + 1 = of_int (D * n + 1)" by (simp add: DA [symmetric])
  have Az1: "A * z + 1 = of_int (Y + 1)" by (simp add: Az)
  show "sample_index fl N M i = js_round y" if nt: "frac y \<noteq> 1 / 2"
  proof -
    have ne: "z \<noteq> of_int n"
    proof
      assume "z = of_int n"
      then have yn: "y = of_int (n - 1) + 1 / 2" by (simp add: z_def)
      have "of_int (n - 1) \<le> y" and "y < of_int (n - 1) + 1" unfolding yn by simp_all
      then have "\<lfloor>y\<rfloor> = n - 1" by (rule floor_unique)
      then have "frac y = y - of_int (n - 1)" by (simp only: frac_def)
      then have "frac y = 1 / 2" unfolding yn by simp
      with nt show False by simp
    qed
    have lt: "of_int n < z" using nz ne by simp
    have "A * of_int n < A * z" using lt A0 by (simp only: mult_less_cancel_left_pos)
    then have "of_int (D * n) < (of_int Y :: rat)" by (simp only: An Az)
    then have "D * n < Y" by (simp only: of_int_less_iff)
    then have "D * n + 1 \<le> Y" by simp
    then have "(of_int (D * n + 1) :: rat) \<le> of_int Y" by (simp only: of_int_le_iff)
    then have lo: "A * of_int n + 1 \<le> A * z" by (simp only: An2 Az)
    have "A * z < A * (of_int n + 1)" using zn A0 by (simp only: mult_less_cancel_left_pos)
    then have "(of_int Y :: rat) < of_int (D * (n + 1))" by (simp only: An1 Az)
    then have "Y < D * (n + 1)" by (simp only: of_int_less_iff)
    then have "Y + 1 \<le> D * (n + 1)" by simp
    then have "(of_int (Y + 1) :: rat) \<le> of_int (D * (n + 1))" by (simp only: of_int_le_iff)
    then have hi: "A * z + 1 \<le> A * (of_int n + 1)" by (simp only: An1 Az1)
    have e1: "A * (z - d) = A * z - A * d" by (simp add: algebra_simps)
    have e2: "A * (z + d) = A * z + A * d" by (simp add: algebra_simps)
    have "A * of_int n < A * (z - d)" using lo Ad unfolding e1 by linarith
    then have l: "of_int n < z - d" using A0 by (simp only: mult_less_cancel_left_pos)
    have "A * (z + d) < A * (of_int n + 1)" using hi Ad unfolding e2 by linarith
    then have h: "z + d < of_int n + 1" using A0 by (simp only: mult_less_cancel_left_pos)
    have "of_int n \<le> x + 1 / 2" using l near_lo by (simp add: z_def)
    moreover have "x + 1 / 2 < of_int n + 1" using h near_hi by (simp add: z_def)
    ultimately have "\<lfloor>x + 1 / 2\<rfloor> = n" by (rule floor_unique)
    then show ?thesis using n_top by (simp add: idx jr)
  qed
  show "sample_index fl N M i = js_round y \<or> sample_index fl N M i = js_round y - 1"
    if tie: "frac y = 1 / 2"
  proof -
    have "y = of_int \<lfloor>y\<rfloor> + 1 / 2" using tie by (simp add: frac_def)
    then have zi: "z = of_int (\<lfloor>y\<rfloor> + 1)" by (simp add: z_def)
    then have "n = \<lfloor>y\<rfloor> + 1" unfolding n_def by (simp only: floor_of_int)
    then have zn': "z = of_int n" using zi by simp
    have lo: "of_int n - d \<le> x + 1 / 2" using near_lo zn' by (simp add: z_def)
    have hi: "x + 1 / 2 \<le> of_int n + d" using near_hi zn' by (simp add: z_def)
    show ?thesis
    proof (cases "of_int n \<le> x + 1 / 2")
      case True
      moreover have "x + 1 / 2 < of_int n + 1" using hi d_half by linarith
      ultimately have "\<lfloor>x + 1 / 2\<rfloor> = n" by (rule floor_unique)
      then show ?thesis using n_top by (simp add: idx jr)
    next
      case False
      have "of_int (n - 1) \<le> x + 1 / 2" using lo d_half by simp
      moreover have "x + 1 / 2 < of_int (n - 1) + 1" using False by simp
      ultimately have "\<lfloor>x + 1 / 2\<rfloor> = n - 1" by (rule floor_unique)
      then show ?thesis using n_top by (simp add: idx jr)
    qed
  qed
qed

lemma no_half_way:
  assumes "odd (M - 1)"
  shows "\<not> half_way N M i"
proof
  assume h: "half_way N M i"
  define y :: rat where "y = of_nat i * of_nat (N - 1) / of_nat (M - 1)"
  define k where "k = \<lfloor>y\<rfloor>"
  define m where "m = int (M - 1)"
  have om: "odd m" using assms by (simp only: m_def even_of_nat not_False_eq_True)
  have a0: "(of_nat (M - 1) :: rat) \<noteq> 0" using assms by (cases "M - 1") simp_all
  have "frac y = 1 / 2" using h by (simp add: half_way_def y_def)
  then have yk: "y = of_int k + 1 / 2" by (simp add: frac_def k_def)
  have "y * of_nat (M - 1) = of_nat i * of_nat (N - 1)" using a0 by (simp add: y_def)
  then have "2 * (of_nat i * of_nat (N - 1)) = (2 * of_int k + 1) * (of_nat (M - 1) :: rat)"
    by (simp add: yk algebra_simps)
  then have "(of_int (2 * (int i * int (N - 1))) :: rat) = of_int ((2 * k + 1) * m)"
    by (simp add: m_def)
  then have e: "2 * (int i * int (N - 1)) = (2 * k + 1) * m"
    by (simp only: of_int_eq_iff)
  have "even (2 * (int i * int (N - 1)))" by simp
  then have "even ((2 * k + 1) * m)" by (simp only: e)
  then have "even (2 * k + 1) \<or> even m" by (simp only: even_mult_iff)
  then show False using om by simp
qed

lemma sample_index_identity:
  assumes "2 \<le> M" and "M < N" and "i < M"
  shows "sample_index (\<lambda>x. x) N M i = js_round (of_nat i * of_nat (N - 1) / of_nat (M - 1))"
proof -
  define y :: rat where "y = of_nat i * of_nat (N - 1) / of_nat (M - 1)"
  have a0: "(0::rat) < of_nat (M - 1)" using assms by simp
  have "i \<le> M - 1" using assms by simp
  then have "of_nat i \<le> (of_nat (M - 1) :: rat)" by (simp only: of_nat_le_iff)
  then have "of_nat i * of_nat (N - 1) \<le> (of_nat (M - 1) :: rat) * of_nat (N - 1)"
    by (intro mult_right_mono) simp_all
  then have "y \<le> of_nat (N - 1)" using a0 by (simp add: y_def pos_divide_le_eq mult.commute)
  moreover have "(of_nat (N - 1) :: rat) + 1 = of_int (int N)" using assms by (simp add: of_nat_diff)
  ultimately have "y + 1 / 2 < of_int (int N)" by linarith
  then have "\<lfloor>y + 1 / 2\<rfloor> < int N" by (simp only: floor_less_iff)
  then have "js_round y \<le> int N - 1" by (simp add: js_round_def)
  then show ?thesis by (simp add: sample_index_def Let_def y_def)
qed

text \<open>
  C5, as amended. Take a frame list of length \<open>N\<close> and a cap \<open>M\<close> with \<open>N > M \<ge> 2\<close>, and let
  the division and the multiplication round with relative error at most \<open>u\<close>
  (\<open>u = 1 / 2 ^ 53\<close> for doubles, \<open>u = 0\<close> for exact arithmetic). When \<open>2 u M (M - 1) \<le> 1\<close>
  and \<open>6 u (N - 1) \<le> 1\<close>, \<^verbatim>\<open>sampleFramesEvenly\<close> returns exactly \<open>M\<close> frames, at indices
  that increase strictly, start at 0, end at \<open>N - 1\<close> and lie in the array. When
  \<open>6 u (N - 1) (M - 1) < 1\<close>, the \<open>i\<close>-th index is \<open>round (i \<times> (N - 1) / (M - 1))\<close> unless
  \<open>i \<times> (N - 1) / (M - 1)\<close> lies half-way between two integers, and then it is that or one
  less; it never lies half-way when \<open>M - 1\<close> is odd, as for the cap 20 of the program. In
  exact arithmetic every index is \<open>round (i \<times> (N - 1) / (M - 1))\<close>. When \<open>M \<ge> N\<close> the input
  is returned unchanged, so sampling a sampled list again changes nothing.
\<close>

theorem sampleFramesEvenly_spread:
  fixes fl :: "rat \<Rightarrow> rat" and u :: rat and frames :: "'a option list"
  shows "((\<forall>x. \<bar>fl x - x\<bar> \<le> u * \<bar>x\<bar>)
        \<and> 2 * u * of_nat M * of_nat (M - 1) \<le> 1
        \<and> 6 * u * of_nat (length frames - 1) \<le> 1
        \<and> 2 \<le> M \<and> M < length frames \<longrightarrow>
      length (sampleFramesEvenly fl frames M) = M
      \<and> sampleFramesEvenly fl frames M =
          map (\<lambda>k. frames ! nat k) (sample_indices fl (length frames) M)
      \<and> sorted_wrt (<) (sample_indices fl (length frames) M)
      \<and> sample_indices fl (length frames) M ! 0 = 0
      \<and> sample_indices fl (length frames) M ! (M - 1) = int (length frames) - 1
      \<and> (\<forall>k \<in> set (sample_indices fl (length frames) M). 0 \<le> k \<and> k < int (length frames)))
   \<and> ((\<forall>x. \<bar>fl x - x\<bar> \<le> u * \<bar>x\<bar>)
        \<and> 6 * u * of_nat (length frames - 1) * of_nat (M - 1) < 1
        \<and> 2 \<le> M \<and> M < length frames \<longrightarrow>
      (\<forall>i < M. \<not> half_way (length frames) M i \<longrightarrow>
         sample_indices fl (length frames) M ! i =
           js_round (of_nat i * of_nat (length frames - 1) / of_nat (M - 1)))
      \<and> (\<forall>i < M. half_way (length frames) M i \<longrightarrow>
         sample_indices fl (length frames) M ! i =
           js_round (of_nat i * of_nat (length frames - 1) / of_nat (M - 1))
         \<or> sample_indices fl (length frames) M ! i =
           js_round (of_nat i * of_nat (length frames - 1) / of_nat (M - 1)) - 1)
      \<and> (odd (M - 1) \<longrightarrow>
         (\<forall>i < M. sample_indices fl (length frames) M ! i =
           js_round (of_nat i * of_nat (length frames - 1) / of_nat (M - 1)))))
   \<and> (2 \<le> M \<and> M < length frames \<longrightarrow>
      (\<forall>i < M. sample_indices (\<lambda>x. x) (length frames) M ! i =
         js_round (of_nat i * of_nat (length frames - 1) / of_nat (M - 1))))
   \<and> (length frames \<le> M \<longrightarrow> sampleFramesEvenly fl frames M = frames)
   \<and> sampleFramesEvenly fl (sampleFramesEvenly fl frames M) M = sampleFramesEvenly fl frames M"
proof -
  let ?N = "length frames"
  let ?ks = "sample_indices fl ?N M"
  let ?y = "\<lambda>i. of_nat i * of_nat (?N - 1) / of_nat (M - 1) :: rat"
  have nth: "sample_indices g ?N M ! i = sample_index g ?N M i" if "i < M" for i g
    using that by (simp add: sample_indices_def)
  have shape: "(\<forall>x. \<bar>fl x - x\<bar> \<le> u * \<bar>x\<bar>)
        \<and> 2 * u * of_nat M * of_nat (M - 1) \<le> 1
        \<and> 6 * u * of_nat (?N - 1) \<le> 1
        \<and> 2 \<le> M \<and> M < ?N \<longrightarrow>
      length (sampleFramesEvenly fl frames M) = M
      \<and> sampleFramesEvenly fl frames M = map (\<lambda>k. frames ! nat k) ?ks
      \<and> sorted_wrt (<) ?ks
      \<and> ?ks ! 0 = 0
      \<and> ?ks ! (M - 1) = int ?N - 1
      \<and> (\<forall>k \<in> set ?ks. 0 \<le> k \<and> k < int ?N)"
  proof (intro impI conjI)
    assume h: "(\<forall>x. \<bar>fl x - x\<bar> \<le> u * \<bar>x\<bar>)
        \<and> 2 * u * of_nat M * of_nat (M - 1) \<le> 1
        \<and> 6 * u * of_nat (?N - 1) \<le> 1
        \<and> 2 \<le> M \<and> M < ?N"
    then have err: "\<And>x. \<bar>fl x - x\<bar> \<le> u * \<bar>x\<bar>"
      and smallM: "2 * u * of_nat M * of_nat (M - 1) \<le> 1"
      and smallN: "6 * u * of_nat (?N - 1) \<le> 1"
      and M2: "2 \<le> M" and MN: "M < ?N" by auto
    note f = sample_index_facts [OF err smallM smallN M2 MN]
    have rng: "0 \<le> k \<and> k < int ?N" if "k \<in> set ?ks" for k
      using that f(4) by (auto simp: sample_indices_def)
    show "length (sampleFramesEvenly fl frames M) = M"
      using M2 MN by (simp add: sampleFramesEvenly_def length_sample_indices)
    have "map (frame_at frames) ?ks = map (\<lambda>k. frames ! nat k) ?ks"
      using rng by (intro map_cong refl) (simp add: frame_at_def)
    then show "sampleFramesEvenly fl frames M = map (\<lambda>k. frames ! nat k) ?ks"
      using M2 MN by (simp add: sampleFramesEvenly_def)
    show "sorted_wrt (<) ?ks"
      unfolding sorted_wrt_iff_nth_less length_sample_indices
      using f(3) nth by (metis order_less_trans)
    show "?ks ! 0 = 0" using nth [of 0 fl] f(1) M2 by simp
    show "?ks ! (M - 1) = int ?N - 1" using nth [of "M - 1" fl] f(2) M2 by simp
    show "\<forall>k \<in> set ?ks. 0 \<le> k \<and> k < int ?N" using rng by blast
  qed
  have stride: "(\<forall>x. \<bar>fl x - x\<bar> \<le> u * \<bar>x\<bar>)
        \<and> 6 * u * of_nat (?N - 1) * of_nat (M - 1) < 1
        \<and> 2 \<le> M \<and> M < ?N \<longrightarrow>
      (\<forall>i < M. \<not> half_way ?N M i \<longrightarrow> ?ks ! i = js_round (?y i))
      \<and> (\<forall>i < M. half_way ?N M i \<longrightarrow>
           ?ks ! i = js_round (?y i) \<or> ?ks ! i = js_round (?y i) - 1)
      \<and> (odd (M - 1) \<longrightarrow> (\<forall>i < M. ?ks ! i = js_round (?y i)))"
  proof (intro impI)
    assume h: "(\<forall>x. \<bar>fl x - x\<bar> \<le> u * \<bar>x\<bar>)
        \<and> 6 * u * of_nat (?N - 1) * of_nat (M - 1) < 1
        \<and> 2 \<le> M \<and> M < ?N"
    then have err: "\<And>x. \<bar>fl x - x\<bar> \<le> u * \<bar>x\<bar>"
      and small: "6 * u * of_nat (?N - 1) * of_nat (M - 1) < 1"
      and M2: "2 \<le> M" and MN: "M < ?N" by auto
    have away: "?ks ! i = js_round (?y i)" if "i < M" and "\<not> half_way ?N M i" for i
      using sample_index_exact(1) [OF err small M2 MN that(1)] that nth [of i fl]
      by (simp add: half_way_def)
    have tie: "?ks ! i = js_round (?y i) \<or> ?ks ! i = js_round (?y i) - 1"
      if "i < M" and "half_way ?N M i" for i
      using sample_index_exact(2) [OF err small M2 MN that(1)] that nth [of i fl]
      by (simp add: half_way_def)
    have odd_cap: "?ks ! i = js_round (?y i)" if "odd (M - 1)" and "i < M" for i
      using away [OF that(2)] no_half_way [OF that(1)] by blast
    show "(\<forall>i < M. \<not> half_way ?N M i \<longrightarrow> ?ks ! i = js_round (?y i))
      \<and> (\<forall>i < M. half_way ?N M i \<longrightarrow>
           ?ks ! i = js_round (?y i) \<or> ?ks ! i = js_round (?y i) - 1)
      \<and> (odd (M - 1) \<longrightarrow> (\<forall>i < M. ?ks ! i = js_round (?y i)))"
      using away tie odd_cap by blast
  qed
  have exact: "2 \<le> M \<and> M < ?N \<longrightarrow>
      (\<forall>i < M. sample_indices (\<lambda>x. x) ?N M ! i = js_round (?y i))"
    using sample_index_identity [of M ?N] nth [of _ "\<lambda>x. x"] by simp
  have same: "?N \<le> M \<longrightarrow> sampleFramesEvenly fl frames M = frames"
    by (simp add: sampleFramesEvenly_def)
  have idem: "sampleFramesEvenly fl (sampleFramesEvenly fl frames M) M = sampleFramesEvenly fl frames M"
    using sampleFramesEvenly_short [of fl frames M]
    by (simp add: sampleFramesEvenly_def [of fl "sampleFramesEvenly fl frames M" M])
  show ?thesis by (intro conjI shape stride exact same idem)
qed

lemma to_double_unit: "\<forall>x. \<bar>to_double x - x\<bar> \<le> (1 / 2 ^ 53) * \<bar>x\<bar>"
  using to_double_error by blast

lemma frames35_sample:
  "length frames35 = 35
   \<and> sample_indices to_double 35 29 =
       [0, 1, 2, 4, 5, 6, 7, 9, 10, 11, 12, 13, 15, 16, 17, 18, 19, 21, 22, 23, 24, 25, 27,
        28, 29, 30, 32, 33, 34]
   \<and> half_way 35 29 21
   \<and> js_round (of_nat 21 * of_nat (35 - 1) / of_nat (29 - 1)) = 26
   \<and> \<not> half_way 35 29 22
   \<and> js_round (of_nat 22 * of_nat (35 - 1) / of_nat (29 - 1)) = 27
   \<and> sample_indices to_double 35 20 =
       map (\<lambda>i. js_round (of_nat i * of_nat (35 - 1) / of_nat (20 - 1))) [0..<20]
   \<and> sample_indices (\<lambda>x. x) 35 29 ! 21 = 26
   \<and> sampleFramesEvenly to_double frames35 40 = frames35"
  by code_simp

theorem sampleFramesEvenly_spread_witness:
  "(\<forall>x. \<bar>to_double x - x\<bar> \<le> (1 / 2 ^ 53) * \<bar>x\<bar>)
   \<and> 2 * (1 / 2 ^ 53) * of_nat 29 * of_nat (29 - 1) \<le> (1 :: rat)
   \<and> 6 * (1 / 2 ^ 53) * of_nat (length frames35 - 1) \<le> (1 :: rat)
   \<and> 6 * (1 / 2 ^ 53) * of_nat (length frames35 - 1) * of_nat (29 - 1) < (1 :: rat)
   \<and> (2 :: nat) \<le> 29 \<and> 29 < length frames35
   \<and> length (sampleFramesEvenly to_double frames35 29) = 29
   \<and> sorted_wrt (<) (sample_indices to_double (length frames35) 29)
   \<and> sample_indices to_double (length frames35) 29 ! 0 = 0
   \<and> sample_indices to_double (length frames35) 29 ! (29 - 1) = int (length frames35) - 1
   \<and> half_way 35 29 21
   \<and> sample_indices to_double 35 29 ! 21 = 25
   \<and> js_round (of_nat 21 * of_nat (35 - 1) / of_nat (29 - 1)) - 1 = 25
   \<and> \<not> half_way (length frames35) 29 22
   \<and> sample_indices to_double (length frames35) 29 ! 22 =
       js_round (of_nat 22 * of_nat (length frames35 - 1) / of_nat (29 - 1))
   \<and> sample_indices (\<lambda>x. x) (length frames35) 29 ! 21 =
       js_round (of_nat 21 * of_nat (length frames35 - 1) / of_nat (29 - 1))
   \<and> length frames35 \<le> 40
   \<and> sampleFramesEvenly to_double frames35 40 = frames35"
proof -
  have n: "length frames35 = 35" using frames35_sample by simp
  have a: "2 * (1 / 2 ^ 53) * of_nat 29 * of_nat (29 - 1) \<le> (1 :: rat)" by simp
  have b: "6 * (1 / 2 ^ 53) * of_nat (length frames35 - 1) \<le> (1 :: rat)" unfolding n by simp
  have c: "6 * (1 / 2 ^ 53) * of_nat (length frames35 - 1) * of_nat (29 - 1) < (1 :: rat)"
    unfolding n by simp
  have d: "(2 :: nat) \<le> 29 \<and> 29 < length frames35" unfolding n by simp
  have nh: "\<not> half_way (length frames35) 29 22" unfolding n using frames35_sample by blast
  note t = sampleFramesEvenly_spread [of to_double "1 / 2 ^ 53" 29 frames35]
  from t [THEN conjunct1] to_double_unit a b d
  have s: "length (sampleFramesEvenly to_double frames35 29) = 29
      \<and> sorted_wrt (<) (sample_indices to_double (length frames35) 29)
      \<and> sample_indices to_double (length frames35) 29 ! 0 = 0
      \<and> sample_indices to_double (length frames35) 29 ! (29 - 1) = int (length frames35) - 1"
    by blast
  from t [THEN conjunct2, THEN conjunct1] to_double_unit c d
  have "\<forall>i < 29. \<not> half_way (length frames35) 29 i \<longrightarrow>
      sample_indices to_double (length frames35) 29 ! i =
        js_round (of_nat i * of_nat (length frames35 - 1) / of_nat (29 - 1))"
    by blast
  then have f: "sample_indices to_double (length frames35) 29 ! 22 =
       js_round (of_nat 22 * of_nat (length frames35 - 1) / of_nat (29 - 1))"
    using nh by simp
  from t [THEN conjunct2, THEN conjunct2, THEN conjunct1] d
  have e: "sample_indices (\<lambda>x. x) (length frames35) 29 ! 21 =
       js_round (of_nat 21 * of_nat (length frames35 - 1) / of_nat (29 - 1))"
    by simp
  have h: "half_way 35 29 21" using frames35_sample by blast
  have i25: "sample_indices to_double 35 29 ! 21 = 25" using frames35_sample by simp
  have j: "js_round (of_nat 21 * of_nat (35 - 1) / of_nat (29 - 1)) - 1 = 25"
    using frames35_sample by simp
  have l: "length frames35 \<le> 40" unfolding n by simp
  have k: "sampleFramesEvenly to_double frames35 40 = frames35" using frames35_sample by blast
  show ?thesis using to_double_unit a b c d s h i25 j nh f e l k by blast
qed

text \<open>
  The claim C5 as stated fails on doubles. With 35 frames and a cap of 29 the step is
  the double nearest to \<open>34 / 28\<close>, which is below it; 21 times the step rounds to the
  double just below \<open>25.5\<close>, and the frame chosen is that at index 25, where
  \<open>round (21 \<times> 34 / 28) = round 25.5 = 26\<close>.
\<close>

theorem double_tie_counterexample:
  "to_double (34 / 28) = 5468656690378459 / 2 ^ 52
   \<and> to_double (34 / 28) < 34 / 28
   \<and> to_double (21 * to_double (34 / 28)) = 7177611906121727 / 2 ^ 48
   \<and> to_double (21 * to_double (34 / 28)) < 51 / 2
   \<and> sampleFramesEvenly to_double frames35 29 ! 21 = Some 25
   \<and> js_round (21 * (35 - 1) / (29 - 1)) = 26"
  by code_simp

end
